theory Spec2Isabelle
  imports Main "HOL-Library.Char_ord" "HOL-Library.List_Lexorder"
begin

section \<open>simplefs on top of a flat object store (gcs\_fs.go)\<close>

text \<open>
  The package implements the simplefs interface (Create, Append, Open, ReadDir) on a bucket
  of a flat object store. This theory embeds the Go code of \<^verbatim>\<open>gcs_fs.go\<close> function by
  function and proves properties of the embedding.

  Go strings are byte strings; they are modelled as \<^typ>\<open>string\<close> (a list of 8-bit
  characters). The order on strings is the byte-wise lexicographic one, which is what
  Go's \<^verbatim>\<open><\<close> on strings and \<^verbatim>\<open>sort.StringSlice\<close> use.
\<close>

subsection \<open>Go values\<close>

type_synonym bytes = "char list"

text \<open>
  Go's \<^verbatim>\<open>error\<close> values. Three sentinels are compared by identity in the code:
  \<^verbatim>\<open>simplefs.ErrNotFound\<close>, \<^verbatim>\<open>storage.ErrObjectNotExist\<close> and \<^verbatim>\<open>iterator.Done\<close>.
  Every other error value is opaque to the package.
\<close>

datatype error = ErrNotFound | ErrObjectNotExist | Done | OtherError string

text \<open>A call either returns its results or ends in a run-time panic.\<close>

datatype 'a outcome = Panics | Returns 'a

subsection \<open>The object store (external collaborator)\<close>

text \<open>
  The package \<^verbatim>\<open>cloud.google.com/go/storage\<close> is not part of the repository. The bucket
  is modelled as an in-memory store: the stored objects (key and content; the first
  binding of a key is the object), together with failures that the store can be made to
  report, so that every error branch of the package can be taken:
  \<^item> \<open>open_fault\<close>: \<^verbatim>\<open>NewReader\<close> fails with this error (for a name that the
    client accepts);
  \<^item> \<open>read_fault\<close>: a reader delivers the content and then fails with this error
    instead of ending the stream;
  \<^item> \<open>list_fault\<close>: the object iterator fails with the error after it has yielded the
    given number of objects.
\<close>

record bucket =
  objects :: "(string \<times> bytes) list"
  open_fault :: "error option"
  read_fault :: "error option"
  list_fault :: "(nat \<times> error) option"

text \<open>A \<^verbatim>\<open>*storage.Reader\<close>: the bytes still to be read and how the stream ends.\<close>

record reader =
  data :: bytes
  stream_err :: "error option"

text \<open>A \<^verbatim>\<open>*storage.Writer\<close>: the object's key and the bytes written so far. The object
  is stored when the writer is closed.\<close>

record writer =
  wkey :: string
  wbuf :: bytes

definition keys :: "bucket \<Rightarrow> string list" where
  "keys b = map fst (objects b)"

text \<open>The bucket that holds the given objects and reports no failure.\<close>

definition store :: "(string \<times> bytes) list \<Rightarrow> bucket" where
  "store objs = \<lparr>objects = objs, open_fault = None, read_fault = None, list_fault = None\<rparr>"

text \<open>
  The client checks the name of an object before it sends a request
  (\<^verbatim>\<open>ObjectHandle.validate\<close> for a reader, \<^verbatim>\<open>Writer.open\<close> for a writer): the empty name
  and a name that is not valid UTF-8 are refused with an error of the client's own, and
  the store is not asked. \<open>ValidString\<close> is Go's \<^verbatim>\<open>utf8.ValidString\<close>, over the values of
  the bytes: a byte below 128, or a lead byte followed by the continuation bytes that its
  range of the encoding allows. The texts of the two errors stand for the client's
  messages, which the package never reads.
\<close>

definition continuation :: "nat \<Rightarrow> bool" where
  "continuation x \<longleftrightarrow> 128 \<le> x \<and> x \<le> 191"

fun ValidBytes :: "nat list \<Rightarrow> bool" where
  "ValidBytes [] = True"
| "ValidBytes (a # bs) =
     (if a < 128 then ValidBytes bs
      else if 194 \<le> a \<and> a \<le> 223 then
        (case bs of
           b # bs' \<Rightarrow> continuation b \<and> ValidBytes bs'
         | _ \<Rightarrow> False)
      else if 224 \<le> a \<and> a \<le> 239 then
        (case bs of
           b # c # bs' \<Rightarrow>
             (if a = 224 then 160 \<le> b \<and> b \<le> 191
              else if a = 237 then 128 \<le> b \<and> b \<le> 159
              else continuation b)
             \<and> continuation c \<and> ValidBytes bs'
         | _ \<Rightarrow> False)
      else if 240 \<le> a \<and> a \<le> 244 then
        (case bs of
           b # c # d # bs' \<Rightarrow>
             (if a = 240 then 144 \<le> b \<and> b \<le> 191
              else if a = 244 then 128 \<le> b \<and> b \<le> 143
              else continuation b)
             \<and> continuation c \<and> continuation d \<and> ValidBytes bs'
         | _ \<Rightarrow> False)
      else False)"

definition ValidString :: "string \<Rightarrow> bool" where
  "ValidString s = ValidBytes (map of_char s)"

definition validate :: "string \<Rightarrow> error option" where
  "validate k =
     (if k = [] then Some (OtherError ''storage: object name is empty'')
      else if \<not> ValidString k then Some (OtherError ''storage: object name is not valid UTF-8'')
      else None)"

text \<open>\<^verbatim>\<open>bucket.Object(key).NewReader(ctx)\<close>: a nil reader and an error, or a reader and
  nil. A name that the client refuses gives the client's error; otherwise an absent
  object is reported as \<^verbatim>\<open>storage.ErrObjectNotExist\<close>.\<close>

definition NewReader :: "bucket \<Rightarrow> string \<Rightarrow> reader option \<times> error option" where
  "NewReader b k =
     (case validate k of
        Some e \<Rightarrow> (None, Some e)
      | None \<Rightarrow>
         (case open_fault b of
            Some e \<Rightarrow> (None, Some e)
          | None \<Rightarrow>
             (case map_of (objects b) k of
                None \<Rightarrow> (None, Some ErrObjectNotExist)
              | Some c \<Rightarrow> (Some \<lparr>data = c, stream_err = read_fault b\<rparr>, None))))"

text \<open>\<^verbatim>\<open>bucket.Object(key).NewWriter(ctx)\<close> never fails: the name is checked when the
  writer is first written to or closed.\<close>

definition NewWriter :: "string \<Rightarrow> writer" where
  "NewWriter k = \<lparr>wkey = k, wbuf = []\<rparr>"

text \<open>\<^verbatim>\<open>w.Write(p)\<close> appends to the pending content, unless the client refuses the
  writer's name: then it fails and the writer is as before.\<close>

definition Write :: "writer \<Rightarrow> bytes \<Rightarrow> writer \<times> error option" where
  "Write w p =
     (case validate (wkey w) of
        Some e \<Rightarrow> (w, Some e)
      | None \<Rightarrow> (w\<lparr>wbuf := wbuf w @ p\<rparr>, None))"

text \<open>\<open>put\<close> stores a content under a key, replacing the object that was there.\<close>

definition put :: "string \<Rightarrow> bytes \<Rightarrow> bucket \<Rightarrow> bucket" where
  "put k c b = b\<lparr>objects := (k, c) # filter (\<lambda>kv. fst kv \<noteq> k) (objects b)\<rparr>"

text \<open>\<^verbatim>\<open>strings.HasPrefix(s, p)\<close>.\<close>

definition HasPrefix :: "string \<Rightarrow> string \<Rightarrow> bool" where
  "HasPrefix s p = (take (length p) s = p)"

text \<open>
  \<^verbatim>\<open>bucket.Objects(ctx, &storage.Query{Prefix: p})\<close>: the sequence of results of the
  iterator's \<^verbatim>\<open>Next\<close>, each the name of an object (the only field of the attributes
  that the package reads) or an error; after the last element \<^verbatim>\<open>Next\<close> returns
  \<^verbatim>\<open>iterator.Done\<close>. The store lists every key that starts with \<open>p\<close> once, in
  lexicographic order.
\<close>

definition matching :: "bucket \<Rightarrow> string \<Rightarrow> string list" where
  "matching b p = sort (remdups (filter (\<lambda>k. HasPrefix k p) (keys b)))"

definition Objects :: "bucket \<Rightarrow> string \<Rightarrow> (error + string) list" where
  "Objects b p =
     (case list_fault b of
        None \<Rightarrow> map Inr (matching b p)
      | Some (i, e) \<Rightarrow> map Inr (take i (matching b p)) @ [Inl e])"

subsection \<open>The file system\<close>

text \<open>
  \<^verbatim>\<open>type fileSystem struct { c; bucket; prefix; err }\<close>. The context \<open>c\<close> is only
  handed on to the store and is left out. \<open>bucket\<close> is a pointer to the bucket handle:
  \<open>None\<close> is the nil pointer, \<open>Some b\<close> holds the state of the bucket it refers to.
\<close>

record fileSystem =
  bucket :: "bucket option"
  prefix :: string
  err :: "error option"

text \<open>\<^verbatim>\<open>New\<close>: the first argument is the error of \<^verbatim>\<open>storage.NewClient\<close> (nil on
  success). When the client cannot be created only \<open>err\<close> is set.\<close>

definition New :: "error option \<Rightarrow> bucket \<Rightarrow> string \<Rightarrow> fileSystem" where
  "New client_err b root =
     (case client_err of
        Some e \<Rightarrow> \<lparr>bucket = None, prefix = [], err = Some e\<rparr>
      | None \<Rightarrow> \<lparr>bucket = Some b, prefix = root, err = None\<rparr>)"

text \<open>\<^verbatim>\<open>type file struct { r io.ReadCloser }\<close> (\<open>file\<close> is reserved in Isabelle, so
  the record is called \<open>File\<close>). The field holds the \<^verbatim>\<open>*storage.Reader\<close> that
  \<^verbatim>\<open>NewReader\<close> returned, \<open>None\<close> when that pointer is nil.\<close>

record File =
  r :: "reader option"

text \<open>\<^verbatim>\<open>type dirEntry struct { name string }\<close> with its two methods.\<close>

record dirEntry =
  name :: string

definition Name :: "dirEntry \<Rightarrow> string" where
  "Name entry = name entry"

definition IsDir :: "dirEntry \<Rightarrow> bool" where
  "IsDir entry = False"

subsection \<open>Path resolution: Go's \<^verbatim>\<open>path.Clean\<close> and \<^verbatim>\<open>path.Join\<close>\<close>

text \<open>
  Both functions belong to Go's standard library; they are transcribed from its source.
  \<^verbatim>\<open>Clean\<close> reads the path from left to right and writes into a buffer \<open>out\<close>;
  \<open>dotdot\<close> is the index in the buffer below which a \<^verbatim>\<open>..\<close> element must not
  remove anything.

  \<open>backtrack out dotdot w\<close> is the loop
  \<^verbatim>\<open>for out.w > dotdot && out.index(out.w) != '/' { out.w-- }\<close>.
\<close>

fun backtrack :: "string \<Rightarrow> nat \<Rightarrow> nat \<Rightarrow> nat" where
  "backtrack out dotdot 0 = 0"
| "backtrack out dotdot (Suc w) =
     (if Suc w > dotdot \<and> out ! Suc w \<noteq> CHR ''/'' then backtrack out dotdot w else Suc w)"

function Clean_loop :: "bool \<Rightarrow> string \<Rightarrow> string \<Rightarrow> nat \<Rightarrow> string" where
  "Clean_loop rooted [] out dotdot = out"
| "Clean_loop rooted (c # cs) out dotdot =
     (if c = CHR ''/'' then
        \<comment> \<open>empty path element\<close>
        Clean_loop rooted cs out dotdot
      else if c = CHR ''.'' \<and> (cs = [] \<or> hd cs = CHR ''/'') then
        \<comment> \<open>. element\<close>
        Clean_loop rooted cs out dotdot
      else if c = CHR ''.'' \<and> hd cs = CHR ''.'' \<and> (tl cs = [] \<or> hd (tl cs) = CHR ''/'') then
        \<comment> \<open>.. element: remove to last /\<close>
        (if length out > dotdot then
           Clean_loop rooted (tl cs) (take (backtrack out dotdot (length out - 1)) out) dotdot
         else if \<not> rooted then
           (let out' = (if length out > 0 then out @ ''/'' else out) @ ''..''
            in Clean_loop rooted (tl cs) out' (length out'))
         else Clean_loop rooted (tl cs) out dotdot)
      else
        \<comment> \<open>real path element: add slash if needed, copy element\<close>
        (let out' = (if rooted \<and> length out \<noteq> 1 \<or> \<not> rooted \<and> length out \<noteq> 0
                     then out @ ''/'' else out)
         in Clean_loop rooted (dropWhile (\<lambda>x. x \<noteq> CHR ''/'') cs)
              (out' @ c # takeWhile (\<lambda>x. x \<noteq> CHR ''/'') cs) dotdot))"
  by pat_completeness auto
termination
proof (relation "measure (\<lambda>(rooted, p, out, dotdot). length p)")
  show "wf (measure (\<lambda>(rooted, p, out, dotdot). length p))"
    by simp
next
  fix rooted :: bool and c :: char and cs out :: string and dotdot :: nat and x
  have "length (dropWhile (\<lambda>x. x \<noteq> CHR ''/'') cs) \<le> length cs"
    by (rule length_dropWhile_le)
  then show "((rooted, dropWhile (\<lambda>x. x \<noteq> CHR ''/'') cs, x @ c # takeWhile (\<lambda>x. x \<noteq> CHR ''/'') cs, dotdot),
              (rooted, c # cs, out, dotdot)) \<in> measure (\<lambda>(rooted, p, out, dotdot). length p)"
    by simp
qed (auto simp: neq_Nil_conv)

definition Clean :: "string \<Rightarrow> string" where
  "Clean p =
     (if p = [] then ''.''
      else let rooted = (hd p = CHR ''/'');
               out = (if rooted then Clean_loop True (tl p) ''/'' 1
                      else Clean_loop False p [] 0)
           in if out = [] then ''.'' else out)"

text \<open>\<^verbatim>\<open>path.Join(elem...)\<close>: the non-empty elements, separated by slashes, cleaned;
  the empty string when there is no non-empty element.\<close>

fun Join_buf :: "string list \<Rightarrow> string \<Rightarrow> string" where
  "Join_buf [] buf = buf"
| "Join_buf (e # es) buf =
     (if length buf > 0 \<or> e \<noteq> [] then
        Join_buf es ((if length buf > 0 then buf @ ''/'' else buf) @ e)
      else Join_buf es buf)"

definition Join :: "string list \<Rightarrow> string" where
  "Join elem =
     (if sum_list (map length elem) = 0 then []
      else Clean (Join_buf elem []))"

subsection \<open>Canonical paths\<close>

text \<open>
  What a canonical path is, for the statements about \<open>Join\<close>: \<open>no_dslash\<close> holds of a
  string without two adjacent slashes (no empty path element inside it). A plain element
  is a non-empty name without a slash other than \<^verbatim>\<open>.\<close> and \<^verbatim>\<open>..\<close>; \<open>join_elems\<close>
  writes a list of elements as a path, with one slash between neighbours.
\<close>

fun no_dslash :: "string \<Rightarrow> bool" where
  "no_dslash (a # b # cs) = (\<not> (a = CHR ''/'' \<and> b = CHR ''/'') \<and> no_dslash (b # cs))"
| "no_dslash cs = True"

definition plain_elem :: "string \<Rightarrow> bool" where
  "plain_elem e \<longleftrightarrow> e \<noteq> [] \<and> CHR ''/'' \<notin> set e \<and> e \<noteq> ''.'' \<and> e \<noteq> ''..''"

fun join_elems :: "string list \<Rightarrow> string" where
  "join_elems [] = []"
| "join_elems [e] = e"
| "join_elems (e # es) = e @ ''/'' @ join_elems es"

text \<open>The invariant of the loop of \<open>Clean\<close>, over the buffer and \<open>dotdot\<close>: the buffer
  of a rooted path starts with the slash, which no \<^verbatim>\<open>..\<close> removes; the buffer has no
  two adjacent slashes and ends in a slash only when it is the root.\<close>

definition Clean_inv :: "bool \<Rightarrow> string \<Rightarrow> nat \<Rightarrow> bool" where
  "Clean_inv rooted out dotdot \<longleftrightarrow>
     dotdot \<le> length out
     \<and> (rooted \<longrightarrow> out \<noteq> [] \<and> hd out = CHR ''/'' \<and> dotdot = 1)
     \<and> (\<not> rooted \<and> 0 < dotdot \<longrightarrow> out ! (dotdot - 1) \<noteq> CHR ''/'')
     \<and> no_dslash out
     \<and> (out \<noteq> [] \<and> last out = CHR ''/'' \<longrightarrow> rooted \<and> length out = 1)"

subsection \<open>Streams\<close>

text \<open>
  \<^verbatim>\<open>file.Read\<close> and \<^verbatim>\<open>file.Close\<close> delegate to the reader in the field \<open>r\<close>; a call
  through a nil reader pointer panics. Reading a file to the end of its stream
  (\<^verbatim>\<open>io.ReadAll\<close>) therefore gives the reader's bytes and the error that ended the stream,
  nil for a regular end.
\<close>

definition ReadAll :: "File \<Rightarrow> (bytes \<times> error option) outcome" where
  "ReadAll f =
     (case r f of
        None \<Rightarrow> Panics
      | Some rd \<Rightarrow> Returns (data rd, stream_err rd))"

text \<open>\<^verbatim>\<open>io.Copy(w, f)\<close> reads \<open>f\<close> to its end and writes what it read to \<open>w\<close>. Nothing is
  written when there is nothing to read. It returns the error of a write that failed,
  and otherwise the error that ended the stream, nil for a regular end.\<close>

definition io_Copy :: "writer \<Rightarrow> File \<Rightarrow> (writer \<times> error option) outcome" where
  "io_Copy w f =
     (case r f of
        None \<Rightarrow> Panics
      | Some rd \<Rightarrow>
         if data rd = [] then Returns (w, stream_err rd)
         else
           (case Write w (data rd) of
              (w', Some e) \<Rightarrow> Returns (w', Some e)
            | (w', None) \<Rightarrow> Returns (w', stream_err rd)))"

text \<open>\<^verbatim>\<open>w.Close()\<close> stores the writer's content in the bucket under the writer's key;
  when the client refuses the name it fails and nothing is stored.\<close>

definition Close :: "writer \<Rightarrow> bucket \<Rightarrow> bucket \<times> error option" where
  "Close w b =
     (case validate (wkey w) of
        Some e \<Rightarrow> (b, Some e)
      | None \<Rightarrow> (put (wkey w) (wbuf w) b, None))"

text \<open>\<^verbatim>\<open>file.ReadDir\<close> is not implemented.\<close>

definition File_ReadDir :: "File \<Rightarrow> int \<Rightarrow> dirEntry list option \<times> error option" where
  "File_ReadDir f n = (None, Some (OtherError ''not implemented''))"

subsection \<open>Create, Open, Append\<close>

text \<open>
  Each method returns a pair of a value (\<open>None\<close> for nil) and an error (\<open>None\<close> for nil).
  A method call on the nil bucket handle panics.
\<close>

definition Create :: "fileSystem \<Rightarrow> string \<Rightarrow> (writer option \<times> error option) outcome" where
  "Create fs nm =
     (case err fs of
        Some e \<Rightarrow> Returns (None, Some e)
      | None \<Rightarrow>
         (let filename = Join [prefix fs, nm]
          in case bucket fs of
               None \<Rightarrow> Panics
             | Some b \<Rightarrow> Returns (Some (NewWriter filename), None)))"

definition Open :: "fileSystem \<Rightarrow> string \<Rightarrow> (File option \<times> error option) outcome" where
  "Open fs nm =
     (let filename = Join [prefix fs, nm]
      in case bucket fs of
           None \<Rightarrow> Panics
         | Some b \<Rightarrow>
            (case NewReader b filename of
               (rd, e) \<Rightarrow>
                 if e = Some ErrObjectNotExist then Returns (None, Some ErrNotFound)
                 else Returns (Some \<lparr>r = rd\<rparr>, e)))"

definition Append :: "fileSystem \<Rightarrow> string \<Rightarrow> (writer option \<times> error option) outcome" where
  "Append fs nm =
     (case Open fs nm of
        Panics \<Rightarrow> Panics
      | Returns (f, e) \<Rightarrow>
         if e \<noteq> None \<and> e \<noteq> Some ErrNotFound then Returns (None, e)
         else
           (case Create fs nm of
              Panics \<Rightarrow> Panics
            | Returns (w, e') \<Rightarrow>
               if e' \<noteq> None then Returns (None, e')
               else
                 (case f of
                    None \<Rightarrow> Returns (w, None)
                  | Some f' \<Rightarrow>
                     (case w of
                        None \<Rightarrow> Panics
                      | Some w' \<Rightarrow>
                         (case io_Copy w' f' of
                            Panics \<Rightarrow> Panics
                          | Returns (w'', ce) \<Rightarrow>
                             if ce \<noteq> None then Returns (None, ce)
                             else Returns (Some w'', None))))))"

subsection \<open>ReadDir\<close>

text \<open>
  The loop over the iterator. \<open>p\<close> is the resolved prefix, \<open>it\<close> the results that
  \<^verbatim>\<open>Next\<close> is still to return, \<open>names\<close> and \<open>found\<close> the two variables of the loop.
  The loop ends with an error that is returned at once, or with the final values of
  \<open>names\<close> and \<open>found\<close>. The slice \<^verbatim>\<open>attrs.Name[n+1:]\<close> panics when the name is
  shorter than \<open>n + 1\<close> bytes. \<^verbatim>\<open>strings.Count(name, "/")\<close> is the number of slashes.
\<close>

fun ReadDir_loop ::
  "string \<Rightarrow> (error + string) list \<Rightarrow> string list \<Rightarrow> bool \<Rightarrow> (error + string list \<times> bool) outcome"
where
  "ReadDir_loop p [] names found = Returns (Inr (names, found))"
| "ReadDir_loop p (Inl e # it) names found =
     (if e = Done then Returns (Inr (names, found)) else Returns (Inl e))"
| "ReadDir_loop p (Inr attrs_Name # it) names found =
     (if attrs_Name = p then Returns (Inl ErrNotFound)
      else if length attrs_Name < length p + 1 then Panics
      else
        (let nm = drop (length p + 1) attrs_Name
         in if count_list nm CHR ''/'' > 0 then ReadDir_loop p it names True
            else ReadDir_loop p it (names @ [nm]) True))"

definition ReadDir :: "fileSystem \<Rightarrow> string \<Rightarrow> (error + dirEntry list) outcome" where
  "ReadDir fs dir =
     (let p = Join [prefix fs, dir]
      in case bucket fs of
           None \<Rightarrow> Panics
         | Some b \<Rightarrow>
            (case ReadDir_loop p (Objects b p) [] False of
               Panics \<Rightarrow> Panics
             | Returns (Inl e) \<Rightarrow> Returns (Inl e)
             | Returns (Inr (names, found)) \<Rightarrow>
                 if \<not> found then Returns (Inl ErrNotFound)
                 else Returns (Inr (map (\<lambda>nm. \<lparr>name = nm\<rparr>) (sort names)))))"

text \<open>The names that the loop collects from a list of keys none of which is the
  prefix \<open>p\<close> itself: each key without its first \<open>length p + 1\<close> bytes, unless what
  remains contains a slash.\<close>

definition children :: "string \<Rightarrow> string list \<Rightarrow> string list" where
  "children p ks =
     map (drop (length p + 1)) (filter (\<lambda>k. CHR ''/'' \<notin> set (drop (length p + 1) k)) ks)"

section \<open>Properties\<close>

subsection \<open>Open\<close>

lemma NewReader_error_nil: "NewReader b k = (rd, Some e) \<Longrightarrow> rd = None"
  by (auto simp: NewReader_def split: option.splits)

lemma NewReader_store:
  "NewReader (store objs) k =
     (case validate k of
        Some e \<Rightarrow> (None, Some e)
      | None \<Rightarrow>
         (case map_of objs k of
            None \<Rightarrow> (None, Some ErrObjectNotExist)
          | Some c \<Rightarrow> (Some \<lparr>data = c, stream_err = None\<rparr>, None)))"
  by (simp add: NewReader_def store_def split: option.split)

text \<open>
  Claim C6. When the store reports that the object at the resolved key does not exist,
  \<open>Open\<close> fails with \<open>ErrNotFound\<close>; every other error of the store is the error that
  \<open>Open\<close> returns, unchanged.
\<close>

theorem Open_error_mapping:
  assumes "bucket fs = Some b"
    and "NewReader b (Join [prefix fs, nm]) = (rd, Some e)"
  shows "\<exists>h. Open fs nm =
           Returns (h, Some (if e = ErrObjectNotExist then ErrNotFound else e))"
  using assms by (simp add: Open_def)

theorem Open_error_mapping_witness:
  "bucket (New None (store [(''a.txt'', ''A'')]) ''root'') = Some (store [(''a.txt'', ''A'')])
   \<and> NewReader (store [(''a.txt'', ''A'')]) (Join [prefix (New None (store [(''a.txt'', ''A'')]) ''root''), ''b.txt''])
       = (None, Some ErrObjectNotExist)
   \<and> (\<exists>h. Open (New None (store [(''a.txt'', ''A'')]) ''root'') ''b.txt'' = Returns (h, Some ErrNotFound))
   \<and> bucket (New None ((store [])\<lparr>open_fault := Some (OtherError ''forbidden'')\<rparr>) ''root'')
       = Some ((store [])\<lparr>open_fault := Some (OtherError ''forbidden'')\<rparr>)
   \<and> NewReader ((store [])\<lparr>open_fault := Some (OtherError ''forbidden'')\<rparr>)
         (Join [prefix (New None ((store [])\<lparr>open_fault := Some (OtherError ''forbidden'')\<rparr>) ''root''), ''b.txt''])
       = (None, Some (OtherError ''forbidden''))
   \<and> (\<exists>h. Open (New None ((store [])\<lparr>open_fault := Some (OtherError ''forbidden'')\<rparr>) ''root'') ''b.txt''
            = Returns (h, Some (OtherError ''forbidden'')))"
proof -
  have b1: "bucket (New None (store [(''a.txt'', ''A'')]) ''root'') = Some (store [(''a.txt'', ''A'')])"
    by (simp add: New_def)
  have r1: "NewReader (store [(''a.txt'', ''A'')])
              (Join [prefix (New None (store [(''a.txt'', ''A'')]) ''root''), ''b.txt''])
            = (None, Some ErrObjectNotExist)"
    by (simp add: NewReader_store New_def Join_def Clean_def validate_def ValidString_def)
  have b2: "bucket (New None ((store [])\<lparr>open_fault := Some (OtherError ''forbidden'')\<rparr>) ''root'')
            = Some ((store [])\<lparr>open_fault := Some (OtherError ''forbidden'')\<rparr>)"
    by (simp add: New_def)
  have r2: "NewReader ((store [])\<lparr>open_fault := Some (OtherError ''forbidden'')\<rparr>)
              (Join [prefix (New None ((store [])\<lparr>open_fault := Some (OtherError ''forbidden'')\<rparr>) ''root''), ''b.txt''])
            = (None, Some (OtherError ''forbidden''))"
    by (simp add: NewReader_def New_def Join_def Clean_def validate_def ValidString_def)
  show ?thesis
    using b1 r1 b2 r2 Open_error_mapping [OF b1 r1] Open_error_mapping [OF b2 r2]
    by simp
qed

text \<open>
  Claim C10. \<open>Open\<close> returns the nil handle only when the store reports that the object
  does not exist (together with \<open>ErrNotFound\<close>). For any other error of the store it
  returns that error together with a handle that is not nil and whose reader is nil; on
  success it returns the handle of the reader.
\<close>

theorem Open_handle:
  assumes "bucket fs = Some b"
  shows "Open fs nm =
           Returns (case NewReader b (Join [prefix fs, nm]) of
                      (rd, None) \<Rightarrow> (Some \<lparr>r = rd\<rparr>, None)
                    | (rd, Some e) \<Rightarrow>
                        if e = ErrObjectNotExist then (None, Some ErrNotFound)
                        else (Some \<lparr>r = None\<rparr>, Some e))"
proof (cases "NewReader b (Join [prefix fs, nm])")
  case (Pair rd oe)
  show ?thesis
  proof (cases oe)
    case None
    with Pair assms show ?thesis by (simp add: Open_def)
  next
    case (Some e)
    with Pair have "rd = None" by (simp add: NewReader_error_nil)
    with Pair Some assms show ?thesis by (simp add: Open_def)
  qed
qed

theorem Open_handle_witness:
  "bucket (New None ((store [(''root/a.txt'', ''A'')])\<lparr>open_fault := Some (OtherError ''forbidden'')\<rparr>) ''root'')
     = Some ((store [(''root/a.txt'', ''A'')])\<lparr>open_fault := Some (OtherError ''forbidden'')\<rparr>)
   \<and> Open (New None ((store [(''root/a.txt'', ''A'')])\<lparr>open_fault := Some (OtherError ''forbidden'')\<rparr>) ''root'') ''a.txt''
     = Returns (Some \<lparr>r = None\<rparr>, Some (OtherError ''forbidden''))"
proof -
  have b1: "bucket (New None ((store [(''root/a.txt'', ''A'')])\<lparr>open_fault := Some (OtherError ''forbidden'')\<rparr>) ''root'')
            = Some ((store [(''root/a.txt'', ''A'')])\<lparr>open_fault := Some (OtherError ''forbidden'')\<rparr>)"
    by (simp add: New_def)
  show ?thesis
    using b1 Open_handle [OF b1, of "''a.txt''"]
    by (simp add: NewReader_def New_def Join_def Clean_def validate_def ValidString_def)
qed

subsection \<open>Directory entries\<close>

text \<open>
  Claim C5. Every entry of a listing that \<open>ReadDir\<close> returns reports that it is not a
  directory, also when its name is the prefix of further keys.
\<close>

theorem ReadDir_entries_not_dir:
  assumes "ReadDir fs dir = Returns (Inr entries)"
  shows "\<forall>entry \<in> set entries. IsDir entry = False"
  by (simp add: IsDir_def)

theorem ReadDir_entries_not_dir_witness:
  "ReadDir (New None (store [(''dir/sub'', ''S''), (''dir/sub/c.txt'', ''C'')]) []) ''dir''
     = Returns (Inr [\<lparr>name = ''sub''\<rparr>])
   \<and> IsDir \<lparr>name = ''sub''\<rparr> = False"
proof -
  have l: "ReadDir (New None (store [(''dir/sub'', ''S''), (''dir/sub/c.txt'', ''C'')]) []) ''dir''
           = Returns (Inr [\<lparr>name = ''sub''\<rparr>])"
    by (simp add: ReadDir_def New_def store_def Join_def Clean_def Objects_def matching_def
          keys_def HasPrefix_def)
  show ?thesis
    using l ReadDir_entries_not_dir [OF l] by simp
qed

subsection \<open>ReadDir\<close>

lemma HasPrefix_refl: "HasPrefix p p"
  by (simp add: HasPrefix_def)

lemma HasPrefix_longer:
  assumes "HasPrefix k p" and "k \<noteq> p"
  shows "length p + 1 \<le> length k"
proof (rule ccontr)
  assume "\<not> length p + 1 \<le> length k"
  then have "length k \<le> length p" by simp
  then have "take (length p) k = k" by simp
  with assms show False by (simp add: HasPrefix_def)
qed

lemma set_matching: "set (matching b p) = {k \<in> set (keys b). HasPrefix k p}"
  by (simp add: matching_def)

lemma distinct_matching: "distinct (matching b p)"
  by (simp add: matching_def)

lemma sorted_matching: "sorted (matching b p)"
  by (simp add: matching_def)

lemma ReadDir_loop_keys:
  assumes "\<forall>k \<in> set ks. HasPrefix k p"
  shows "ReadDir_loop p (map Inr ks) names found =
           (if p \<in> set ks then Returns (Inl ErrNotFound)
            else Returns (Inr (names @ children p ks, found \<or> ks \<noteq> [])))"
  using assms
proof (induction ks arbitrary: names found)
  case Nil
  show ?case by (simp add: children_def)
next
  case (Cons k ks)
  show ?case
  proof (cases "k = p")
    case True
    then show ?thesis by simp
  next
    case False
    with Cons.prems have len: "\<not> length k < length p + 1"
      using HasPrefix_longer [of k p] by simp
    from Cons.prems have rest: "\<forall>k \<in> set ks. HasPrefix k p" by simp
    show ?thesis
      using False len Cons.IH [OF rest]
      by (auto simp: children_def Let_def count_list_0_iff)
  qed
qed

lemma ReadDir_listing:
  assumes "list_fault b = None"
  shows "ReadDir (New None b root) dir =
           (if Join [root, dir] \<in> set (keys b) \<or> (\<forall>k \<in> set (keys b). \<not> HasPrefix k (Join [root, dir]))
            then Returns (Inl ErrNotFound)
            else Returns (Inr (map (\<lambda>nm. \<lparr>name = nm\<rparr>)
                   (sort (children (Join [root, dir]) (matching b (Join [root, dir])))))))"
proof -
  let ?p = "Join [root, dir]"
  have pre: "\<forall>k \<in> set (matching b ?p). HasPrefix k ?p"
    by (simp add: set_matching)
  have mem: "?p \<in> set (matching b ?p) \<longleftrightarrow> ?p \<in> set (keys b)"
    by (simp add: set_matching HasPrefix_refl)
  have emp: "matching b ?p = [] \<longleftrightarrow> (\<forall>k \<in> set (keys b). \<not> HasPrefix k ?p)"
  proof -
    have "matching b ?p = [] \<longleftrightarrow> set (matching b ?p) = {}" by simp
    also have "\<dots> \<longleftrightarrow> (\<forall>k \<in> set (keys b). \<not> HasPrefix k ?p)"
      unfolding set_matching by blast
    finally show ?thesis .
  qed
  show ?thesis
    using assms mem emp
    by (simp add: ReadDir_def New_def Objects_def Let_def ReadDir_loop_keys [OF pre])
qed


lemma matching_explicit:
  assumes "{k \<in> set (keys b). HasPrefix k p} = set ks" and "sorted ks" and "distinct ks"
  shows "matching b p = ks"
proof (rule sorted_distinct_set_unique)
  show "set (matching b p) = set ks" using assms(1) by (simp add: set_matching)
qed (simp_all add: sorted_matching distinct_matching assms)

text \<open>
  Claim C1. When the bucket holds exactly the keys \<^verbatim>\<open>dir/a.txt\<close>, \<^verbatim>\<open>dir/b.txt\<close> and
  \<^verbatim>\<open>dir/sub/c.txt\<close> (with any contents, the root prefix being empty), \<open>ReadDir\<close> of
  \<^verbatim>\<open>dir\<close> succeeds and returns exactly the two entries \<^verbatim>\<open>a.txt\<close> and \<^verbatim>\<open>b.txt\<close>, in
  this order; there is no entry for \<^verbatim>\<open>sub\<close> or \<^verbatim>\<open>sub/c.txt\<close>.
\<close>

theorem ReadDir_example:
  assumes "set (keys b) = {''dir/a.txt'', ''dir/b.txt'', ''dir/sub/c.txt''}"
    and "list_fault b = None"
  shows "ReadDir (New None b []) ''dir'' = Returns (Inr [\<lparr>name = ''a.txt''\<rparr>, \<lparr>name = ''b.txt''\<rparr>])"
proof -
  have p: "Join [[], ''dir''] = ''dir''"
    by (simp add: Join_def Clean_def)
  have "\<forall>k \<in> set (keys b). HasPrefix k ''dir''"
    by (simp add: assms(1) HasPrefix_def)
  then have "{k \<in> set (keys b). HasPrefix k ''dir''} = set (keys b)"
    by blast
  also have "\<dots> = set [''dir/a.txt'', ''dir/b.txt'', ''dir/sub/c.txt'']"
    by (simp add: assms(1))
  finally have m: "matching b ''dir'' = [''dir/a.txt'', ''dir/b.txt'', ''dir/sub/c.txt'']"
    by (rule matching_explicit) simp_all
  have k: "''dir'' \<notin> set (keys b)" "\<exists>k \<in> set (keys b). HasPrefix k ''dir''"
    by (simp_all add: assms(1) HasPrefix_def)
  show ?thesis
    using k by (simp add: ReadDir_listing [OF assms(2)] p m children_def)
qed

theorem ReadDir_example_witness:
  "set (keys (store [(''dir/sub/c.txt'', ''C''), (''dir/a.txt'', ''A''), (''dir/b.txt'', ''B'')]))
     = {''dir/a.txt'', ''dir/b.txt'', ''dir/sub/c.txt''}
   \<and> list_fault (store [(''dir/sub/c.txt'', ''C''), (''dir/a.txt'', ''A''), (''dir/b.txt'', ''B'')]) = None
   \<and> ReadDir (New None (store [(''dir/sub/c.txt'', ''C''), (''dir/a.txt'', ''A''), (''dir/b.txt'', ''B'')]) []) ''dir''
     = Returns (Inr [\<lparr>name = ''a.txt''\<rparr>, \<lparr>name = ''b.txt''\<rparr>])"
proof -
  have h1: "set (keys (store [(''dir/sub/c.txt'', ''C''), (''dir/a.txt'', ''A''), (''dir/b.txt'', ''B'')]))
            = {''dir/a.txt'', ''dir/b.txt'', ''dir/sub/c.txt''}"
    by (simp add: keys_def store_def insert_commute)
  have h2: "list_fault (store [(''dir/sub/c.txt'', ''C''), (''dir/a.txt'', ''A''), (''dir/b.txt'', ''B'')]) = None"
    by (simp add: store_def)
  from h1 h2 ReadDir_example [OF h1 h2] show ?thesis
    by (intro conjI)
qed

text \<open>
  Claim C2. When the store serves the listing, \<open>ReadDir\<close> fails with \<open>ErrNotFound\<close>
  exactly when no key of the bucket starts with the resolved prefix or some key is the
  resolved prefix itself, whatever other keys start with it.
\<close>

theorem ReadDir_NotFound_iff:
  assumes "list_fault b = None"
  shows "ReadDir (New None b root) dir = Returns (Inl ErrNotFound) \<longleftrightarrow>
           (\<forall>k \<in> set (keys b). \<not> HasPrefix k (Join [root, dir]))
           \<or> Join [root, dir] \<in> set (keys b)"
  by (auto simp: ReadDir_listing [OF assms])

theorem ReadDir_NotFound_iff_witness:
  "list_fault (store [(''dir'', ''D''), (''dir/a.txt'', ''A'')]) = None
   \<and> ReadDir (New None (store [(''dir'', ''D''), (''dir/a.txt'', ''A'')]) []) ''dir'' = Returns (Inl ErrNotFound)
   \<and> Join [[], ''dir''] \<in> set (keys (store [(''dir'', ''D''), (''dir/a.txt'', ''A'')]))
   \<and> ReadDir (New None (store [(''dir'', ''D''), (''dir/a.txt'', ''A'')]) []) ''missing'' = Returns (Inl ErrNotFound)
   \<and> ReadDir (New None (store [(''dir'', ''D''), (''dir/a.txt'', ''A'')]) []) ''dir/'' = Returns (Inl ErrNotFound)
   \<and> ReadDir (New None (store [(''data/dir/a.txt'', ''A'')]) ''data'') ''dir'' \<noteq> Returns (Inl ErrNotFound)"
proof -
  let ?b = "store [(''dir'', ''D''), (''dir/a.txt'', ''A'')]"
  let ?c = "store [(''data/dir/a.txt'', ''A'')]"
  have h: "list_fault ?b = None" "list_fault ?c = None"
    by (simp_all add: store_def)
  have j: "Join [[], ''dir''] = ''dir''" "Join [[], ''missing''] = ''missing''"
    "Join [[], ''dir/''] = ''dir''" "Join [''data'', ''dir''] = ''data/dir''"
    by (simp_all add: Join_def Clean_def)
  have k: "keys ?b = [''dir'', ''dir/a.txt'']" "keys ?c = [''data/dir/a.txt'']"
    by (simp_all add: keys_def store_def)
  show ?thesis
    using h(1) ReadDir_NotFound_iff [OF h(1), of "[]" "''dir''"]
      ReadDir_NotFound_iff [OF h(1), of "[]" "''missing''"]
      ReadDir_NotFound_iff [OF h(1), of "[]" "''dir/''"]
      ReadDir_NotFound_iff [OF h(2), of "''data''" "''dir''"]
    by (simp add: j k HasPrefix_def)
qed

text \<open>An error of the iterator is returned as it is; here it fails at the first call
  of \<^verbatim>\<open>Next\<close>.\<close>

lemma ReadDir_list_error:
  assumes "list_fault b = Some (0, e)" and "e \<noteq> Done"
  shows "ReadDir (New None b root) dir = Returns (Inl e)"
  using assms by (simp add: ReadDir_def New_def Objects_def)

text \<open>The names of a listing are always in ascending order.\<close>

lemma ReadDir_sorted:
  assumes "ReadDir fs dir = Returns (Inr entries)"
  shows "sorted (map Name entries)"
proof -
  from assms obtain names where "entries = map (\<lambda>nm. \<lparr>name = nm\<rparr>) (sort names)"
    by (auto simp: ReadDir_def Let_def split: option.splits outcome.splits sum.splits if_splits)
  then show ?thesis by (simp add: comp_def Name_def)
qed

text \<open>
  When every key that starts with the resolved prefix continues with a slash, the
  listing is as intended: its names are pairwise distinct, in ascending order, and they
  are exactly the names \<open>nm\<close> without a slash for which the key \<^verbatim>\<open>prefix/nm\<close> is stored.
\<close>

lemma HasPrefix_slash_split:
  assumes "HasPrefix k (p @ ''/'')"
  shows "k = p @ ''/'' @ drop (length p + 1) k"
proof -
  from assms have "take (length p + 1) k = p @ ''/''" by (simp add: HasPrefix_def)
  then have "k = (p @ ''/'') @ drop (length p + 1) k"
    using append_take_drop_id [of "length p + 1" k] by simp
  then show ?thesis by simp
qed

lemma ReadDir_direct_children:
  assumes "list_fault b = None"
    and sep: "\<forall>k \<in> set (keys b). HasPrefix k (Join [root, dir]) \<longrightarrow> HasPrefix k (Join [root, dir] @ ''/'')"
    and ex: "\<exists>k \<in> set (keys b). HasPrefix k (Join [root, dir])"
  shows "\<exists>entries. ReadDir (New None b root) dir = Returns (Inr entries)
           \<and> distinct (map Name entries) \<and> sorted (map Name entries)
           \<and> set (map Name entries) =
               {nm. CHR ''/'' \<notin> set nm \<and> Join [root, dir] @ ''/'' @ nm \<in> set (keys b)}"
proof -
  let ?p = "Join [root, dir]"
  let ?ks = "matching b ?p"
  let ?names = "sort (children ?p ?ks)"
  have "\<not> HasPrefix ?p (?p @ ''/'')" by (simp add: HasPrefix_def)
  with sep have notin: "?p \<notin> set (keys b)" using HasPrefix_refl [of ?p] by blast
  have ks: "\<forall>k \<in> set ?ks. HasPrefix k (?p @ ''/'')"
    using sep by (simp add: set_matching)
  have r: "ReadDir (New None b root) dir = Returns (Inr (map (\<lambda>nm. \<lparr>name = nm\<rparr>) ?names))"
    using notin ex by (simp add: ReadDir_listing [OF assms(1)])
  have n: "map Name (map (\<lambda>nm. \<lparr>name = nm\<rparr>) ?names) = ?names"
    by (simp add: comp_def Name_def)
  have inj: "inj_on (drop (length ?p + 1)) (set ?ks)"
  proof (rule inj_onI)
    fix x y assume "x \<in> set ?ks" "y \<in> set ?ks" "drop (length ?p + 1) x = drop (length ?p + 1) y"
    then show "x = y"
      using ks HasPrefix_slash_split [of x ?p] HasPrefix_slash_split [of y ?p] by metis
  qed
  have "inj_on (drop (length ?p + 1))
          (set (filter (\<lambda>k. CHR ''/'' \<notin> set (drop (length ?p + 1) k)) ?ks))"
    by (rule inj_on_subset [OF inj]) auto
  then have d: "distinct (children ?p ?ks)"
    unfolding children_def by (simp add: distinct_map distinct_matching)
  have s: "set (children ?p ?ks) = {nm. CHR ''/'' \<notin> set nm \<and> ?p @ ''/'' @ nm \<in> set (keys b)}"
  proof (intro set_eqI iffI)
    fix nm assume "nm \<in> set (children ?p ?ks)"
    then obtain k where k: "k \<in> set ?ks" "nm = drop (length ?p + 1) k" "CHR ''/'' \<notin> set nm"
      by (auto simp: children_def)
    from k(1) ks have "k = ?p @ ''/'' @ drop (length ?p + 1) k"
      using HasPrefix_slash_split [of k ?p] by blast
    then have kk: "?p @ ''/'' @ nm = k" unfolding k(2) by simp
    from k(1) have "k \<in> set (keys b)" by (simp add: set_matching)
    then have "?p @ ''/'' @ nm \<in> set (keys b)" by (simp only: kk)
    with k(3) show "nm \<in> {nm. CHR ''/'' \<notin> set nm \<and> ?p @ ''/'' @ nm \<in> set (keys b)}"
      by simp
  next
    fix nm assume "nm \<in> {nm. CHR ''/'' \<notin> set nm \<and> ?p @ ''/'' @ nm \<in> set (keys b)}"
    then have a: "CHR ''/'' \<notin> set nm" "?p @ ''/'' @ nm \<in> set (keys b)" by simp_all
    have "HasPrefix (?p @ ''/'' @ nm) ?p" by (simp add: HasPrefix_def)
    with a have "?p @ ''/'' @ nm \<in> set ?ks" by (simp add: set_matching)
    moreover have "drop (length ?p + 1) (?p @ ''/'' @ nm) = nm" by simp
    ultimately show "nm \<in> set (children ?p ?ks)"
      using a(1) unfolding children_def set_map set_filter by force
  qed
  show ?thesis
  proof (intro exI conjI)
    show "ReadDir (New None b root) dir = Returns (Inr (map (\<lambda>nm. \<lparr>name = nm\<rparr>) ?names))"
      by (rule r)
    show "distinct (map Name (map (\<lambda>nm. \<lparr>name = nm\<rparr>) ?names))"
      unfolding n using d by simp
    show "sorted (map Name (map (\<lambda>nm. \<lparr>name = nm\<rparr>) ?names))"
      unfolding n by simp
    show "set (map Name (map (\<lambda>nm. \<lparr>name = nm\<rparr>) ?names)) =
            {nm. CHR ''/'' \<notin> set nm \<and> ?p @ ''/'' @ nm \<in> set (keys b)}"
      unfolding n using s by simp
  qed
qed

text \<open>
  Claim C3 (the code departs from it). The relative name of a key should be the key
  without the prefix and the path separator that follows it. The loop drops the prefix
  and the next byte without looking at that byte, and the query matches every key that
  starts with the prefix. With the keys \<^verbatim>\<open>logs.txt\<close> and \<^verbatim>\<open>logs/1.txt\<close>, the listing
  of \<^verbatim>\<open>logs\<close> has the entry \<^verbatim>\<open>txt\<close>: the key \<^verbatim>\<open>logs.txt\<close> has no separator after
  the prefix, its dot is dropped in place of one, and no object \<^verbatim>\<open>logs/txt\<close> is stored.
\<close>

theorem ReadDir_prefix_collision:
  "ReadDir (New None (store [(''logs.txt'', x), (''logs/1.txt'', y)]) []) ''logs''
     = Returns (Inr [\<lparr>name = ''1.txt''\<rparr>, \<lparr>name = ''txt''\<rparr>])
   \<and> \<not> HasPrefix ''logs.txt'' (''logs'' @ ''/'')
   \<and> ''logs'' @ ''/'' @ ''txt'' \<notin> set (keys (store [(''logs.txt'', x), (''logs/1.txt'', y)]))"
  by (simp add: ReadDir_def New_def store_def Join_def Clean_def Objects_def matching_def
        keys_def HasPrefix_def Let_def)

text \<open>
  Claim C4 (the code departs from it). The names of a listing should be pairwise
  distinct and in ascending order. They are in ascending order (\<open>ReadDir_sorted\<close>), but
  with the two keys \<^verbatim>\<open>logs-1.txt\<close> and \<^verbatim>\<open>logs/1.txt\<close> the listing of \<^verbatim>\<open>logs\<close> has
  the name \<^verbatim>\<open>1.txt\<close> twice, because the byte after the prefix is dropped whether or not
  it is a separator.
\<close>

theorem ReadDir_duplicate_names:
  "ReadDir (New None (store [(''logs-1.txt'', x), (''logs/1.txt'', y)]) []) ''logs''
     = Returns (Inr [\<lparr>name = ''1.txt''\<rparr>, \<lparr>name = ''1.txt''\<rparr>])
   \<and> \<not> distinct (map Name [\<lparr>name = ''1.txt''\<rparr>, \<lparr>name = ''1.txt''\<rparr>])"
  by (simp add: ReadDir_def New_def store_def Join_def Clean_def Objects_def matching_def
        keys_def HasPrefix_def Name_def Let_def)

subsection \<open>Create and Append\<close>

lemma map_of_keys: "map_of (objects b) k = None \<longleftrightarrow> k \<notin> set (keys b)"
  by (simp add: keys_def map_of_eq_None_iff)

lemma put_fields:
  "objects (put k c b) = (k, c) # filter (\<lambda>kv. fst kv \<noteq> k) (objects b)"
  "open_fault (put k c b) = open_fault b"
  "read_fault (put k c b) = read_fault b"
  "list_fault (put k c b) = list_fault b"
  by (simp_all add: put_def)

lemma validate_error: "validate k = Some e \<Longrightarrow> e \<noteq> ErrObjectNotExist \<and> e \<noteq> ErrNotFound"
  by (auto simp: validate_def split: if_splits)

lemma NewReader_not_exist_valid:
  assumes "NewReader b k = (rd, Some ErrObjectNotExist)"
  shows "validate k = None"
proof (cases "validate k")
  case None
  then show ?thesis .
next
  case (Some e)
  with assms have "e = ErrObjectNotExist" by (simp add: NewReader_def)
  with Some validate_error [of k e] show ?thesis by simp
qed

lemma NewReader_absent:
  assumes "validate k = None" and "open_fault b = None" and "k \<notin> set (keys b)"
  shows "NewReader b k = (None, Some ErrObjectNotExist)"
  using assms by (simp add: NewReader_def map_of_keys [symmetric])

lemma Write_valid:
  assumes "validate k = None"
  shows "Write \<lparr>wkey = k, wbuf = c\<rparr> c' = (\<lparr>wkey = k, wbuf = c @ c'\<rparr>, None)"
  using assms by (simp add: Write_def)

lemma Close_valid:
  assumes "validate k = None"
  shows "Close \<lparr>wkey = k, wbuf = c\<rparr> b = (put k c b, None)"
  using assms by (simp add: Close_def)

lemma Create_New: "Create (New None b root) p = Returns (Some (NewWriter (Join [root, p])), None)"
  by (simp add: Create_def New_def)

lemma Open_not_exist:
  assumes "NewReader b (Join [root, p]) = (rd, Some ErrObjectNotExist)"
  shows "Open (New None b root) p = Returns (None, Some ErrNotFound)"
  using assms by (simp add: Open_def New_def)

lemma Open_existing:
  assumes "validate (Join [root, p]) = None" and "open_fault b = None"
    and "map_of (objects b) (Join [root, p]) = Some c"
  shows "Open (New None b root) p = Returns (Some \<lparr>r = Some \<lparr>data = c, stream_err = read_fault b\<rparr>\<rparr>, None)"
  using assms by (simp add: Open_def New_def NewReader_def)

lemma Append_not_exist:
  assumes "NewReader b (Join [root, p]) = (rd, Some ErrObjectNotExist)"
  shows "Append (New None b root) p = Returns (Some (NewWriter (Join [root, p])), None)"
  by (simp add: Append_def Open_not_exist [OF assms] Create_New)

lemma io_Copy_valid:
  assumes "validate k = None"
  shows "io_Copy \<lparr>wkey = k, wbuf = []\<rparr> \<lparr>r = Some \<lparr>data = c, stream_err = se\<rparr>\<rparr>
           = Returns (\<lparr>wkey = k, wbuf = c\<rparr>, se)"
  using Write_valid [OF assms, of "[]" c] by (simp add: io_Copy_def)

lemma Append_existing:
  assumes "validate (Join [root, p]) = None" and "open_fault b = None" and "read_fault b = None"
    and "map_of (objects b) (Join [root, p]) = Some c"
  shows "Append (New None b root) p = Returns (Some \<lparr>wkey = Join [root, p], wbuf = c\<rparr>, None)"
  using assms(3)
  by (simp add: Append_def Open_existing [OF assms(1,2,4)] Create_New NewWriter_def
        io_Copy_valid [OF assms(1)])

text \<open>
  When the client refuses the resolved name (the empty name, a name that is not valid
  UTF-8), \<open>Create\<close> still returns a writer, but writing to it and closing it fail and
  store nothing, and \<open>Append\<close> returns the client's error.
\<close>

lemma refused_name:
  assumes "validate (Join [root, p]) = Some e"
  shows "Create (New None b root) p = Returns (Some (NewWriter (Join [root, p])), None)"
    and "Write (NewWriter (Join [root, p])) c = (NewWriter (Join [root, p]), Some e)"
    and "Close (NewWriter (Join [root, p])) b = (b, Some e)"
    and "Append (New None b root) p = Returns (None, Some e)"
proof -
  show "Create (New None b root) p = Returns (Some (NewWriter (Join [root, p])), None)"
    by (rule Create_New)
  show "Write (NewWriter (Join [root, p])) c = (NewWriter (Join [root, p]), Some e)"
    using assms by (simp add: Write_def NewWriter_def)
  show "Close (NewWriter (Join [root, p])) b = (b, Some e)"
    using assms by (simp add: Close_def NewWriter_def)
  have "Open (New None b root) p = Returns (Some \<lparr>r = None\<rparr>, Some e)"
    using assms validate_error [OF assms] by (simp add: Open_def New_def NewReader_def)
  then show "Append (New None b root) p = Returns (None, Some e)"
    using validate_error [OF assms] by (simp add: Append_def)
qed

text \<open>Two such names: the empty root with the empty path resolves to the empty name, and
  a name with the byte \<open>0xFF\<close> is not valid UTF-8.\<close>

lemma Append_empty_name:
  "Append (New None b []) [] = Returns (None, Some (OtherError ''storage: object name is empty''))"
proof -
  have "validate (Join [[], []]) = Some (OtherError ''storage: object name is empty'')"
    by (simp add: Join_def validate_def)
  then show ?thesis by (rule refused_name(4))
qed

lemma Write_invalid_name:
  "Write (NewWriter (Join [[], [CHR 0xFF, CHR ''a'']])) c =
     (NewWriter (Join [[], [CHR 0xFF, CHR ''a'']]), Some (OtherError ''storage: object name is not valid UTF-8''))"
proof -
  have "validate (Join [[], [CHR 0xFF, CHR ''a'']])
          = Some (OtherError ''storage: object name is not valid UTF-8'')"
    by (simp add: Join_def Clean_def validate_def ValidString_def)
  then show ?thesis by (rule refused_name(2))
qed

text \<open>
  Claim C7. For a path whose resolved name the client accepts, on a bucket whose readers
  do not fail, and for all contents \<open>c1\<close> and \<open>c2\<close>: \<open>Create\<close> returns a writer; \<open>c1\<close> is
  written to it and it is closed, both without error; then \<open>Append\<close> returns a writer;
  \<open>c2\<close> is written to that one and it is closed, both without error; then the object
  stored at the resolved key is \<open>c1 @ c2\<close>, and \<open>Open\<close> returns a handle whose stream,
  read to its end, is \<open>c1 @ c2\<close>.
\<close>

theorem Create_then_Append:
  assumes "validate (Join [root, p]) = None"
    and "open_fault b = None" and "read_fault b = None"
  shows "\<exists>w1 w1' b1 w2 w2' b2 h.
           Create (New None b root) p = Returns (Some w1, None)
         \<and> Write w1 c1 = (w1', None)
         \<and> Close w1' b = (b1, None)
         \<and> Append (New None b1 root) p = Returns (Some w2, None)
         \<and> Write w2 c2 = (w2', None)
         \<and> Close w2' b1 = (b2, None)
         \<and> map_of (objects b2) (Join [root, p]) = Some (c1 @ c2)
         \<and> Open (New None b2 root) p = Returns (Some h, None)
         \<and> ReadAll h = Returns (c1 @ c2, None)"
proof -
  let ?k = "Join [root, p]"
  let ?b1 = "put ?k c1 b"
  let ?b2 = "put ?k (c1 @ c2) ?b1"
  note v = assms(1)
  have cr: "Create (New None b root) p = Returns (Some \<lparr>wkey = ?k, wbuf = []\<rparr>, None)"
    by (simp add: Create_New NewWriter_def)
  have wr1: "Write \<lparr>wkey = ?k, wbuf = []\<rparr> c1 = (\<lparr>wkey = ?k, wbuf = c1\<rparr>, None)"
    using Write_valid [OF v, of "[]" c1] by simp
  have cl1: "Close \<lparr>wkey = ?k, wbuf = c1\<rparr> b = (?b1, None)"
    by (rule Close_valid [OF v])
  have f1: "open_fault ?b1 = None" "read_fault ?b1 = None" "map_of (objects ?b1) ?k = Some c1"
    using assms(2,3) by (simp_all add: put_fields)
  have ap: "Append (New None ?b1 root) p = Returns (Some \<lparr>wkey = ?k, wbuf = c1\<rparr>, None)"
    by (rule Append_existing [OF v f1])
  have wr2: "Write \<lparr>wkey = ?k, wbuf = c1\<rparr> c2 = (\<lparr>wkey = ?k, wbuf = c1 @ c2\<rparr>, None)"
    by (rule Write_valid [OF v])
  have cl2: "Close \<lparr>wkey = ?k, wbuf = c1 @ c2\<rparr> ?b1 = (?b2, None)"
    by (rule Close_valid [OF v])
  have f2: "open_fault ?b2 = None" "read_fault ?b2 = None" "map_of (objects ?b2) ?k = Some (c1 @ c2)"
    using f1 by (simp_all add: put_fields)
  have op: "Open (New None ?b2 root) p = Returns (Some \<lparr>r = Some \<lparr>data = c1 @ c2, stream_err = None\<rparr>\<rparr>, None)"
    using Open_existing [OF v f2(1) f2(3)] f2(2) by simp
  have ra: "ReadAll \<lparr>r = Some \<lparr>data = c1 @ c2, stream_err = None\<rparr>\<rparr> = Returns (c1 @ c2, None)"
    by (simp add: ReadAll_def)
  from cr wr1 cl1 ap wr2 cl2 f2(3) op ra show ?thesis by blast
qed

theorem Create_then_Append_witness:
  "validate (Join [''data'', ''log.txt'']) = None
   \<and> open_fault (store [(''data/log.txt'', ''old'')]) = None
   \<and> read_fault (store [(''data/log.txt'', ''old'')]) = None
   \<and> (\<exists>w1 w1' b1 w2 w2' b2 h.
           Create (New None (store [(''data/log.txt'', ''old'')]) ''data'') ''log.txt'' = Returns (Some w1, None)
         \<and> Write w1 ''ab'' = (w1', None)
         \<and> Close w1' (store [(''data/log.txt'', ''old'')]) = (b1, None)
         \<and> Append (New None b1 ''data'') ''log.txt'' = Returns (Some w2, None)
         \<and> Write w2 ''cd'' = (w2', None)
         \<and> Close w2' b1 = (b2, None)
         \<and> map_of (objects b2) (Join [''data'', ''log.txt'']) = Some (''ab'' @ ''cd'')
         \<and> Open (New None b2 ''data'') ''log.txt'' = Returns (Some h, None)
         \<and> ReadAll h = Returns (''ab'' @ ''cd'', None))"
proof -
  have h0: "validate (Join [''data'', ''log.txt'']) = None"
    by (simp add: Join_def Clean_def validate_def ValidString_def)
  have h1: "open_fault (store [(''data/log.txt'', ''old'')]) = None"
    by (simp add: store_def)
  have h2: "read_fault (store [(''data/log.txt'', ''old'')]) = None"
    by (simp add: store_def)
  from h0 h1 h2 Create_then_Append [OF h0 h1 h2, of "''ab''" "''cd''"]
  show ?thesis by (intro conjI)
qed

text \<open>
  Claim C8. When the store reports that no object exists at the resolved key, \<open>Append\<close>
  succeeds and returns what \<open>Create\<close> returns: \<open>c\<close> is written to the writer and it is
  closed, both without error, and the stored object is then exactly \<open>c\<close>. When \<open>Open\<close>
  fails with any error other than \<open>ErrNotFound\<close>, \<open>Append\<close> returns no writer and that
  error.
\<close>

theorem Append_absent:
  "(NewReader b (Join [root, p]) = (rd, Some ErrObjectNotExist) \<longrightarrow>
      Append (New None b root) p = Create (New None b root) p
      \<and> (\<exists>w w' b'. Append (New None b root) p = Returns (Some w, None)
             \<and> Write w c = (w', None)
             \<and> Close w' b = (b', None)
             \<and> map_of (objects b') (Join [root, p]) = Some c))
   \<and> (Open fs p = Returns (h, Some e) \<and> e \<noteq> ErrNotFound \<longrightarrow>
        Append fs p = Returns (None, Some e))"
proof (intro conjI impI)
  let ?k = "Join [root, p]"
  assume a: "NewReader b ?k = (rd, Some ErrObjectNotExist)"
  then have v: "validate ?k = None" by (rule NewReader_not_exist_valid)
  show "Append (New None b root) p = Create (New None b root) p"
    by (simp add: Append_not_exist [OF a] Create_New)
  have ap: "Append (New None b root) p = Returns (Some \<lparr>wkey = ?k, wbuf = []\<rparr>, None)"
    by (simp add: Append_not_exist [OF a] NewWriter_def)
  have wr: "Write \<lparr>wkey = ?k, wbuf = []\<rparr> c = (\<lparr>wkey = ?k, wbuf = c\<rparr>, None)"
    using Write_valid [OF v, of "[]" c] by simp
  have cl: "Close \<lparr>wkey = ?k, wbuf = c\<rparr> b = (put ?k c b, None)"
    by (rule Close_valid [OF v])
  have st: "map_of (objects (put ?k c b)) ?k = Some c"
    by (simp add: put_fields)
  from ap wr cl st
  show "\<exists>w w' b'. Append (New None b root) p = Returns (Some w, None)
             \<and> Write w c = (w', None)
             \<and> Close w' b = (b', None)
             \<and> map_of (objects b') ?k = Some c"
    by blast
next
  assume "Open fs p = Returns (h, Some e) \<and> e \<noteq> ErrNotFound"
  then show "Append fs p = Returns (None, Some e)"
    by (simp add: Append_def)
qed

theorem Append_absent_witness:
  "NewReader (store [(''data/a.txt'', ''A'')]) (Join [''data'', ''b.txt'']) = (None, Some ErrObjectNotExist)
   \<and> Append (New None (store [(''data/a.txt'', ''A'')]) ''data'') ''b.txt''
       = Create (New None (store [(''data/a.txt'', ''A'')]) ''data'') ''b.txt''
   \<and> (\<exists>w w' b'. Append (New None (store [(''data/a.txt'', ''A'')]) ''data'') ''b.txt'' = Returns (Some w, None)
          \<and> Write w ''xyz'' = (w', None)
          \<and> Close w' (store [(''data/a.txt'', ''A'')]) = (b', None)
          \<and> map_of (objects b') (Join [''data'', ''b.txt'']) = Some ''xyz'')
   \<and> Open (New None ((store [])\<lparr>open_fault := Some (OtherError ''forbidden'')\<rparr>) ''data'') ''b.txt''
       = Returns (Some \<lparr>r = None\<rparr>, Some (OtherError ''forbidden''))
   \<and> OtherError ''forbidden'' \<noteq> ErrNotFound
   \<and> Append (New None ((store [])\<lparr>open_fault := Some (OtherError ''forbidden'')\<rparr>) ''data'') ''b.txt''
       = Returns (None, Some (OtherError ''forbidden''))"
proof -
  let ?b = "store [(''data/a.txt'', ''A'')]"
  let ?fs = "New None ((store [])\<lparr>open_fault := Some (OtherError ''forbidden'')\<rparr>) ''data''"
  have j: "Join [''data'', ''b.txt''] = ''data/b.txt''"
    by (simp add: Join_def Clean_def)
  have v: "validate ''data/b.txt'' = None"
    by (simp add: validate_def ValidString_def)
  have h1: "NewReader ?b (Join [''data'', ''b.txt'']) = (None, Some ErrObjectNotExist)"
    unfolding j by (rule NewReader_absent [OF v]) (simp_all add: store_def keys_def)
  have h3: "Open ?fs ''b.txt'' = Returns (Some \<lparr>r = None\<rparr>, Some (OtherError ''forbidden''))"
    using v by (simp add: Open_def New_def NewReader_def j store_def)
  have h4: "OtherError ''forbidden'' \<noteq> ErrNotFound"
    by simp
  from h1 h3 h4
    Append_absent [of ?b "''data''" "''b.txt''" None "''xyz''" ?fs "Some \<lparr>r = None\<rparr>" "OtherError ''forbidden''"]
  show ?thesis by blast
qed

subsection \<open>Path resolution\<close>

lemma no_dslash_append:
  "no_dslash (xs @ ys) \<longleftrightarrow>
     no_dslash xs \<and> no_dslash ys \<and> (xs = [] \<or> ys = [] \<or> last xs \<noteq> CHR ''/'' \<or> hd ys \<noteq> CHR ''/'')"
proof (induction xs)
  case Nil
  show ?case by simp
next
  case (Cons x xs)
  show ?case
  proof (cases xs)
    case Nil
    then show ?thesis by (cases ys) auto
  next
    case (Cons x' xs')
    with Cons.IH show ?thesis by auto
  qed
qed

lemma no_dslash_take: "no_dslash xs \<Longrightarrow> no_dslash (take n xs)"
  using no_dslash_append [of "take n xs" "drop n xs"] by simp

lemma no_dslash_nth:
  "no_dslash s \<Longrightarrow> Suc i < length s \<Longrightarrow> s ! Suc i = CHR ''/'' \<Longrightarrow> s ! i \<noteq> CHR ''/''"
proof (induction s arbitrary: i rule: no_dslash.induct)
  case (1 a b cs)
  then show ?case by (cases i) auto
qed simp_all

lemma no_dslash_no_slash: "CHR ''/'' \<notin> set e \<Longrightarrow> no_dslash e"
  by (induction e rule: no_dslash.induct) auto

lemma backtrack_le: "backtrack out dotdot w \<le> w"
  by (induction w) auto

lemma backtrack_ge: "dotdot \<le> w \<Longrightarrow> dotdot \<le> backtrack out dotdot w"
  by (induction w) auto

lemma backtrack_stop: "dotdot < backtrack out dotdot w \<Longrightarrow> out ! backtrack out dotdot w = CHR ''/''"
  by (induction w) (auto split: if_splits)

lemma last_take:
  assumes "0 < n" and "n \<le> length xs"
  shows "last (take n xs) = xs ! (n - 1)"
proof -
  from assms have ne: "take n xs \<noteq> []" by auto
  from assms have len: "length (take n xs) = n" by simp
  have "last (take n xs) = take n xs ! (length (take n xs) - 1)"
    using ne by (rule last_conv_nth)
  also have "\<dots> = take n xs ! (n - 1)" by (simp only: len)
  also have "\<dots> = xs ! (n - 1)" using assms(1) by simp
  finally show ?thesis .
qed

lemma inv_backtrack:
  assumes "Clean_inv rooted out dotdot" and "dotdot < length out"
  shows "Clean_inv rooted (take (backtrack out dotdot (length out - 1)) out) dotdot"
proof -
  define w where "w = backtrack out dotdot (length out - 1)"
  from assms(2) have d: "dotdot \<le> length out - 1" by simp
  have ge: "dotdot \<le> w" unfolding w_def by (rule backtrack_ge [OF d])
  have "w \<le> length out - 1" unfolding w_def by (rule backtrack_le)
  with assms(2) have lt: "w < length out" by arith
  then have len: "length (take w out) = w" by simp
  have nd: "no_dslash (take w out)"
    using assms(1) by (simp add: Clean_inv_def no_dslash_take)
  have root: "rooted \<longrightarrow> take w out \<noteq> [] \<and> hd (take w out) = CHR ''/'' \<and> dotdot = 1"
  proof
    assume rooted
    with assms(1) have r: "out \<noteq> []" "hd out = CHR ''/''" "dotdot = 1"
      by (simp_all add: Clean_inv_def)
    with ge have "0 < w" by simp
    with r show "take w out \<noteq> [] \<and> hd (take w out) = CHR ''/'' \<and> dotdot = 1"
      by (cases out; cases w) simp_all
  qed
  have dd: "\<not> rooted \<and> 0 < dotdot \<longrightarrow> take w out ! (dotdot - 1) \<noteq> CHR ''/''"
  proof
    assume a: "\<not> rooted \<and> 0 < dotdot"
    with ge have "dotdot - 1 < w" by arith
    then have "take w out ! (dotdot - 1) = out ! (dotdot - 1)" by simp
    with a assms(1) show "take w out ! (dotdot - 1) \<noteq> CHR ''/''"
      by (simp add: Clean_inv_def)
  qed
  have lst: "take w out \<noteq> [] \<and> last (take w out) = CHR ''/'' \<longrightarrow> rooted \<and> w = 1"
  proof
    assume a: "take w out \<noteq> [] \<and> last (take w out) = CHR ''/''"
    then have w0: "0 < w" by (cases w) simp_all
    with lt have "last (take w out) = out ! (w - 1)" by (simp add: last_take)
    with a have l: "out ! (w - 1) = CHR ''/''" by simp
    show "rooted \<and> w = 1"
    proof (cases "dotdot < w")
      case True
      then have "out ! w = CHR ''/''" unfolding w_def by (rule backtrack_stop)
      moreover have "no_dslash out" using assms(1) by (simp add: Clean_inv_def)
      moreover have "Suc (w - 1) = w" using w0 by simp
      ultimately have "out ! (w - 1) \<noteq> CHR ''/''"
        using no_dslash_nth [of out "w - 1"] lt by simp
      with l show ?thesis by simp
    next
      case False
      with ge have e: "w = dotdot" by simp
      from assms(1) have "\<not> rooted \<and> 0 < dotdot \<longrightarrow> out ! (dotdot - 1) \<noteq> CHR ''/''"
        and "rooted \<longrightarrow> dotdot = 1"
        by (simp_all add: Clean_inv_def)
      with e w0 l show ?thesis by auto
    qed
  qed
  have "Clean_inv rooted (take w out) dotdot"
    unfolding Clean_inv_def len using ge nd root dd lst by blast
  then show ?thesis by (simp only: w_def)
qed

lemma inv_dotdot:
  assumes "Clean_inv False out dotdot" and "\<not> dotdot < length out"
  shows "Clean_inv False ((if length out > 0 then out @ ''/'' else out) @ ''..'')
           (length ((if length out > 0 then out @ ''/'' else out) @ ''..''))"
  using assms by (auto simp: Clean_inv_def no_dslash_append nth_append)

lemma inv_element:
  assumes "Clean_inv rooted out dotdot" and "e \<noteq> []" and "CHR ''/'' \<notin> set e"
  shows "Clean_inv rooted
           ((if rooted \<and> length out \<noteq> 1 \<or> \<not> rooted \<and> length out \<noteq> 0 then out @ ''/'' else out) @ e)
           dotdot"
proof -
  have "hd e \<in> set e" "last e \<in> set e"
    using assms(2) by simp_all
  with assms(3) have e: "hd e \<noteq> CHR ''/''" "last e \<noteq> CHR ''/''" "no_dslash e"
    by (auto simp: no_dslash_no_slash)
  show ?thesis
    using assms e
    by (auto simp: Clean_inv_def no_dslash_append nth_append hd_append)
qed

lemma takeWhile_no_slash: "CHR ''/'' \<notin> set (takeWhile (\<lambda>x. x \<noteq> CHR ''/'') cs)"
  using set_takeWhileD [of "CHR ''/''" "\<lambda>x. x \<noteq> CHR ''/''" cs] by blast

lemma Clean_loop_inv:
  "Clean_inv rooted out dotdot \<Longrightarrow> \<exists>d. Clean_inv rooted (Clean_loop rooted p out dotdot) d"
proof (induction rooted p out dotdot rule: Clean_loop.induct)
  case (1 rooted out dotdot)
  then show ?case by auto
next
  case (2 rooted c cs out dotdot)
  let ?e = "c # takeWhile (\<lambda>x. x \<noteq> CHR ''/'') cs"
  let ?out4 = "(if rooted \<and> length out \<noteq> 1 \<or> \<not> rooted \<and> length out \<noteq> 0 then out @ ''/'' else out)"
  let ?out3 = "(if length out > 0 then out @ ''/'' else out) @ ''..''"
  define is_dot where "is_dot \<longleftrightarrow> c = CHR ''.'' \<and> (cs = [] \<or> hd cs = CHR ''/'')"
  define is_dotdot where
    "is_dotdot \<longleftrightarrow> c = CHR ''.'' \<and> hd cs = CHR ''.'' \<and> (tl cs = [] \<or> hd (tl cs) = CHR ''/'')"
  have unfold: "Clean_loop rooted (c # cs) out dotdot =
     (if c = CHR ''/'' then Clean_loop rooted cs out dotdot
      else if is_dot then Clean_loop rooted cs out dotdot
      else if is_dotdot then
        (if length out > dotdot then
           Clean_loop rooted (tl cs) (take (backtrack out dotdot (length out - 1)) out) dotdot
         else if \<not> rooted then Clean_loop rooted (tl cs) ?out3 (length ?out3)
         else Clean_loop rooted (tl cs) out dotdot)
      else Clean_loop rooted (dropWhile (\<lambda>x. x \<noteq> CHR ''/'') cs) (?out4 @ ?e) dotdot)"
    by (subst Clean_loop.simps) (simp only: is_dot_def is_dotdot_def Let_def)
  consider
      (slash) "c = CHR ''/''"
    | (dot) "c \<noteq> CHR ''/''" "is_dot"
    | (dotdot_back) "c \<noteq> CHR ''/''" "\<not> is_dot" "is_dotdot" "dotdot < length out"
    | (dotdot_add) "c \<noteq> CHR ''/''" "\<not> is_dot" "is_dotdot" "\<not> dotdot < length out" "\<not> rooted"
    | (dotdot_root) "c \<noteq> CHR ''/''" "\<not> is_dot" "is_dotdot" "\<not> dotdot < length out" "rooted"
    | (element) "c \<noteq> CHR ''/''" "\<not> is_dot" "\<not> is_dotdot"
    by blast
  then show ?case
  proof cases
    case slash
    have eq: "Clean_loop rooted (c # cs) out dotdot = Clean_loop rooted cs out dotdot"
      by (subst unfold) (simp only: slash if_True if_False simp_thms)
    show ?thesis unfolding eq by (rule "2.IH"(1) [OF slash "2.prems"])
  next
    case dot
    have eq: "Clean_loop rooted (c # cs) out dotdot = Clean_loop rooted cs out dotdot"
      by (subst unfold) (simp only: dot if_True if_False simp_thms)
    show ?thesis unfolding eq
      by (rule "2.IH"(2) [OF dot(1) dot(2) [unfolded is_dot_def] "2.prems"])
  next
    case dotdot_back
    have eq: "Clean_loop rooted (c # cs) out dotdot =
                Clean_loop rooted (tl cs) (take (backtrack out dotdot (length out - 1)) out) dotdot"
      by (subst unfold) (simp only: dotdot_back if_True if_False simp_thms)
    have "Clean_inv rooted (take (backtrack out dotdot (length out - 1)) out) dotdot"
      using "2.prems" dotdot_back(4) by (rule inv_backtrack)
    then show ?thesis unfolding eq
      by (rule "2.IH"(3) [OF dotdot_back(1) dotdot_back(2) [unfolded is_dot_def]
            dotdot_back(3) [unfolded is_dotdot_def] dotdot_back(4)])
  next
    case dotdot_add
    have eq: "Clean_loop rooted (c # cs) out dotdot = Clean_loop rooted (tl cs) ?out3 (length ?out3)"
      by (subst unfold) (simp only: dotdot_add if_True if_False simp_thms)
    have "Clean_inv False ?out3 (length ?out3)"
      using "2.prems" dotdot_add(4,5) inv_dotdot [of out dotdot] by simp
    then have "Clean_inv rooted ?out3 (length ?out3)" using dotdot_add(5) by simp
    then show ?thesis unfolding eq
      by (rule "2.IH"(4) [OF dotdot_add(1) dotdot_add(2) [unfolded is_dot_def]
            dotdot_add(3) [unfolded is_dotdot_def] dotdot_add(4) dotdot_add(5) refl])
  next
    case dotdot_root
    have eq: "Clean_loop rooted (c # cs) out dotdot = Clean_loop rooted (tl cs) out dotdot"
      by (subst unfold) (simp only: dotdot_root if_True if_False simp_thms)
    have nr: "\<not> \<not> rooted" using dotdot_root(5) by simp
    show ?thesis unfolding eq
      by (rule "2.IH"(5) [OF dotdot_root(1) dotdot_root(2) [unfolded is_dot_def]
            dotdot_root(3) [unfolded is_dotdot_def] dotdot_root(4) nr "2.prems"])
  next
    case element
    have eq: "Clean_loop rooted (c # cs) out dotdot =
                Clean_loop rooted (dropWhile (\<lambda>x. x \<noteq> CHR ''/'') cs) (?out4 @ ?e) dotdot"
      by (subst unfold) (simp only: element if_True if_False simp_thms)
    have "Clean_inv rooted (?out4 @ ?e) dotdot"
      using "2.prems" by (rule inv_element) (use element(1) in \<open>auto simp: takeWhile_no_slash\<close>)
    then show ?thesis unfolding eq
      by (rule "2.IH"(6) [OF element(1) element(2) [unfolded is_dot_def]
            element(3) [unfolded is_dotdot_def] refl])
  qed
qed

lemma Clean_inv_result:
  assumes "Clean_inv rooted out d" and "out \<noteq> []"
  shows "no_dslash out \<and> (out = ''/'' \<or> last out \<noteq> CHR ''/'')"
proof -
  have "out = ''/''" if "last out = CHR ''/''"
  proof -
    from assms that have "length out = 1" and "rooted" by (simp_all add: Clean_inv_def)
    moreover from this assms(1) have "hd out = CHR ''/''" by (simp add: Clean_inv_def)
    ultimately show ?thesis by (cases out) simp_all
  qed
  with assms(1) show ?thesis by (auto simp: Clean_inv_def)
qed

lemma Clean_tidy:
  "Clean p \<noteq> [] \<and> no_dslash (Clean p) \<and> (Clean p = ''/'' \<or> last (Clean p) \<noteq> CHR ''/'')"
proof (cases "p = []")
  case True
  then show ?thesis by (simp add: Clean_def)
next
  case False
  show ?thesis
  proof (cases "hd p = CHR ''/''")
    case True
    have "Clean_inv True ''/'' 1" by (simp add: Clean_inv_def)
    then obtain d where d: "Clean_inv True (Clean_loop True (tl p) ''/'' 1) d"
      using Clean_loop_inv by blast
    then have ne: "Clean_loop True (tl p) ''/'' 1 \<noteq> []" by (simp add: Clean_inv_def)
    have c: "Clean p = Clean_loop True (tl p) ''/'' 1"
      using False True ne by (simp add: Clean_def)
    show ?thesis unfolding c using Clean_inv_result [OF d ne] ne by simp
  next
    case nr: False
    have "Clean_inv False [] 0" by (simp add: Clean_inv_def)
    then obtain d where d: "Clean_inv False (Clean_loop False p [] 0) d"
      using Clean_loop_inv by blast
    show ?thesis
    proof (cases "Clean_loop False p [] 0 = []")
      case True
      then have "Clean p = ''.''" using False nr by (simp add: Clean_def)
      then show ?thesis by simp
    next
      case ne: False
      have c: "Clean p = Clean_loop False p [] 0"
        using False nr ne by (simp add: Clean_def)
      show ?thesis unfolding c using Clean_inv_result [OF d ne] ne by simp
    qed
  qed
qed

lemma Join_tidy:
  "no_dslash (Join elem) \<and> (Join elem = [] \<or> Join elem = ''/'' \<or> last (Join elem) \<noteq> CHR ''/'')"
  using Clean_tidy [of "Join_buf elem []"] by (simp add: Join_def)

lemma Join_two:
  "Join [root, p] =
     (if root = [] \<and> p = [] then []
      else Clean (if root = [] then p else root @ ''/'' @ p))"
  by (simp add: Join_def)

lemma takeWhile_snoc_stop: "\<not> P y \<Longrightarrow> takeWhile P (xs @ [y]) = takeWhile P xs"
  by (induction xs) simp_all

lemma dropWhile_snoc_stop: "\<not> P y \<Longrightarrow> dropWhile P (xs @ [y]) = dropWhile P xs @ [y]"
  by (induction xs) simp_all

lemma Clean_loop_trailing_slash:
  "Clean_loop rooted (p @ ''/'') out dotdot = Clean_loop rooted p out dotdot"
proof (induction rooted p out dotdot rule: Clean_loop.induct)
  case (1 rooted out dotdot)
  show ?case by simp
next
  case (2 rooted c cs out dotdot)
  let ?P = "\<lambda>x. x \<noteq> CHR ''/''"
  let ?out4 = "(if rooted \<and> length out \<noteq> 1 \<or> \<not> rooted \<and> length out \<noteq> 0 then out @ ''/'' else out)"
  let ?out3 = "(if length out > 0 then out @ ''/'' else out) @ ''..''"
  define is_dot where "is_dot \<longleftrightarrow> c = CHR ''.'' \<and> (cs = [] \<or> hd cs = CHR ''/'')"
  define is_dotdot where
    "is_dotdot \<longleftrightarrow> c = CHR ''.'' \<and> hd cs = CHR ''.'' \<and> (tl cs = [] \<or> hd (tl cs) = CHR ''/'')"
  have unfold: "Clean_loop rooted (c # cs) out dotdot =
     (if c = CHR ''/'' then Clean_loop rooted cs out dotdot
      else if is_dot then Clean_loop rooted cs out dotdot
      else if is_dotdot then
        (if length out > dotdot then
           Clean_loop rooted (tl cs) (take (backtrack out dotdot (length out - 1)) out) dotdot
         else if \<not> rooted then Clean_loop rooted (tl cs) ?out3 (length ?out3)
         else Clean_loop rooted (tl cs) out dotdot)
      else Clean_loop rooted (dropWhile ?P cs) (?out4 @ c # takeWhile ?P cs) dotdot)"
    by (subst Clean_loop.simps) (simp only: is_dot_def is_dotdot_def Let_def)
  have d1: "(c = CHR ''.'' \<and> (cs @ ''/'' = [] \<or> hd (cs @ ''/'') = CHR ''/'')) \<longleftrightarrow> is_dot"
    by (cases cs) (simp_all add: is_dot_def)
  have d2: "(c = CHR ''.'' \<and> hd (cs @ ''/'') = CHR ''.'' \<and>
              (tl (cs @ ''/'') = [] \<or> hd (tl (cs @ ''/'')) = CHR ''/'')) \<longleftrightarrow> is_dotdot"
    if "\<not> is_dot"
  proof (cases cs)
    case Nil
    with that show ?thesis by (auto simp: is_dot_def is_dotdot_def)
  next
    case (Cons x xs)
    then show ?thesis by (cases xs) (simp_all add: is_dotdot_def)
  qed
  have t: "tl (cs @ ''/'') = tl cs @ ''/''" if "\<not> is_dot" "is_dotdot"
    using that by (cases cs) (simp_all add: is_dot_def is_dotdot_def)
  have unfold': "Clean_loop rooted (c # cs @ ''/'') out dotdot =
     (if c = CHR ''/'' then Clean_loop rooted (cs @ ''/'') out dotdot
      else if is_dot then Clean_loop rooted (cs @ ''/'') out dotdot
      else if is_dotdot then
        (if length out > dotdot then
           Clean_loop rooted (tl cs @ ''/'') (take (backtrack out dotdot (length out - 1)) out) dotdot
         else if \<not> rooted then Clean_loop rooted (tl cs @ ''/'') ?out3 (length ?out3)
         else Clean_loop rooted (tl cs @ ''/'') out dotdot)
      else Clean_loop rooted (dropWhile ?P cs @ ''/'') (?out4 @ c # takeWhile ?P cs) dotdot)"
  proof (cases "is_dot")
    case True
    then show ?thesis
      by (subst Clean_loop.simps) (simp only: d1 True if_True Let_def)
  next
    case False
    show ?thesis
    proof (cases "is_dotdot")
      case True
      show ?thesis
        by (subst Clean_loop.simps,
            simp only: d1 d2 [OF False] False True if_True if_False Let_def,
            simp only: t [OF False True])
    next
      case nd: False
      show ?thesis
        by (subst Clean_loop.simps)
          (simp only: d1 d2 [OF False] False nd if_False Let_def
             takeWhile_snoc_stop dropWhile_snoc_stop simp_thms)
    qed
  qed
  consider
      (slash) "c = CHR ''/''"
    | (dot) "c \<noteq> CHR ''/''" "is_dot"
    | (dotdot_back) "c \<noteq> CHR ''/''" "\<not> is_dot" "is_dotdot" "dotdot < length out"
    | (dotdot_add) "c \<noteq> CHR ''/''" "\<not> is_dot" "is_dotdot" "\<not> dotdot < length out" "\<not> rooted"
    | (dotdot_root) "c \<noteq> CHR ''/''" "\<not> is_dot" "is_dotdot" "\<not> dotdot < length out" "rooted"
    | (element) "c \<noteq> CHR ''/''" "\<not> is_dot" "\<not> is_dotdot"
    by blast
  then have "Clean_loop rooted (c # cs @ ''/'') out dotdot = Clean_loop rooted (c # cs) out dotdot"
  proof cases
    case slash
    show ?thesis unfolding unfold unfold'
      using "2.IH"(1) [OF slash] by (simp only: slash if_True simp_thms)
  next
    case dot
    show ?thesis unfolding unfold unfold'
      using "2.IH"(2) [OF dot(1) dot(2) [unfolded is_dot_def]]
      by (simp only: dot if_True if_False simp_thms)
  next
    case dotdot_back
    show ?thesis unfolding unfold unfold'
      using "2.IH"(3) [OF dotdot_back(1) dotdot_back(2) [unfolded is_dot_def]
            dotdot_back(3) [unfolded is_dotdot_def] dotdot_back(4)]
      by (simp only: dotdot_back if_True if_False simp_thms)
  next
    case dotdot_add
    show ?thesis unfolding unfold unfold'
      using "2.IH"(4) [OF dotdot_add(1) dotdot_add(2) [unfolded is_dot_def]
            dotdot_add(3) [unfolded is_dotdot_def] dotdot_add(4) dotdot_add(5) refl]
      by (simp only: dotdot_add if_True if_False simp_thms)
  next
    case dotdot_root
    have nr: "\<not> \<not> rooted" using dotdot_root(5) by simp
    show ?thesis unfolding unfold unfold'
      using "2.IH"(5) [OF dotdot_root(1) dotdot_root(2) [unfolded is_dot_def]
            dotdot_root(3) [unfolded is_dotdot_def] dotdot_root(4) nr]
      by (simp only: dotdot_root if_True if_False simp_thms)
  next
    case element
    show ?thesis unfolding unfold unfold'
      using "2.IH"(6) [OF element(1) element(2) [unfolded is_dot_def]
            element(3) [unfolded is_dotdot_def] refl]
      by (simp only: element if_True if_False simp_thms)
  qed
  then show ?case by simp
qed

lemma Clean_trailing_slash:
  assumes "root \<noteq> []"
  shows "Clean (root @ ''/'') = Clean root"
proof -
  have "root @ ''/'' \<noteq> []" by simp
  then show ?thesis
    using assms
    by (simp only: Clean_def hd_append2 [OF assms] tl_append2 [OF assms]
          Clean_loop_trailing_slash if_False)
qed

lemma Join_empty_path: "Join [root, []] = (if root = [] then [] else Clean root)"
  using Clean_trailing_slash [of root] by (simp add: Join_two)

lemma takeWhile_elem:
  assumes "CHR ''/'' \<notin> set xs" and "rest = [] \<or> hd rest = CHR ''/''"
  shows "takeWhile (\<lambda>x. x \<noteq> CHR ''/'') (xs @ rest) = xs"
    and "dropWhile (\<lambda>x. x \<noteq> CHR ''/'') (xs @ rest) = rest"
proof -
  have r: "takeWhile (\<lambda>x. x \<noteq> CHR ''/'') rest = []" "dropWhile (\<lambda>x. x \<noteq> CHR ''/'') rest = rest"
    using assms(2) by (cases rest; simp)+
  have a: "\<And>x. x \<in> set xs \<Longrightarrow> x \<noteq> CHR ''/''" using assms(1) by auto
  show "takeWhile (\<lambda>x. x \<noteq> CHR ''/'') (xs @ rest) = xs"
    using a r(1) by (simp add: takeWhile_append2)
  show "dropWhile (\<lambda>x. x \<noteq> CHR ''/'') (xs @ rest) = rest"
    using a r(2) by (simp add: dropWhile_append2)
qed

lemma Clean_loop_plain_elem:
  assumes "plain_elem e" and "rest = [] \<or> hd rest = CHR ''/''"
  shows "Clean_loop rooted (e @ rest) out dotdot =
           Clean_loop rooted rest
             ((if rooted \<and> length out \<noteq> 1 \<or> \<not> rooted \<and> length out \<noteq> 0 then out @ ''/'' else out) @ e)
             dotdot"
proof -
  from assms(1) obtain c cs where e: "e = c # cs" and c: "c \<noteq> CHR ''/''" and cs: "CHR ''/'' \<notin> set cs"
    by (cases e) (auto simp: plain_elem_def)
  have nd: "\<not> (c = CHR ''.'' \<and> (cs @ rest = [] \<or> hd (cs @ rest) = CHR ''/''))"
    using assms(1) cs unfolding e plain_elem_def by (cases cs) auto
  have ndd: "\<not> (c = CHR ''.'' \<and> hd (cs @ rest) = CHR ''.'' \<and>
                 (tl (cs @ rest) = [] \<or> hd (tl (cs @ rest)) = CHR ''/''))"
  proof (cases cs)
    case Nil
    with assms(1) show ?thesis unfolding e plain_elem_def by auto
  next
    case (Cons x xs)
    with assms(1) cs show ?thesis unfolding e plain_elem_def by (cases xs) auto
  qed
  show ?thesis
    unfolding e append_Cons
    by (subst Clean_loop.simps)
      (simp only: c nd ndd if_False Let_def takeWhile_elem [OF cs assms(2)])
qed

lemma Clean_loop_plain_elems:
  assumes "\<forall>e \<in> set es. plain_elem e" and "out \<noteq> []" and "rooted \<longrightarrow> length out \<noteq> 1"
  shows "Clean_loop rooted (concat (map (\<lambda>e. CHR ''/'' # e) es)) out dotdot =
           out @ concat (map (\<lambda>e. CHR ''/'' # e) es)"
  using assms
proof (induction es arbitrary: out)
  case Nil
  show ?case by simp
next
  case (Cons e es)
  let ?rest = "concat (map (\<lambda>e. CHR ''/'' # e) es)"
  have rest: "?rest = [] \<or> hd ?rest = CHR ''/''"
    by (cases es) simp_all
  have pe: "plain_elem e" using Cons.prems(1) by simp
  then have ne: "e \<noteq> []" by (simp add: plain_elem_def)
  have "Clean_loop rooted (concat (map (\<lambda>e. CHR ''/'' # e) (e # es))) out dotdot
        = Clean_loop rooted (e @ ?rest) out dotdot"
    by simp
  also have "\<dots> = Clean_loop rooted ?rest (out @ ''/'' @ e) dotdot"
    using Cons.prems(2,3) by (simp add: Clean_loop_plain_elem [OF pe rest])
  also have "\<dots> = (out @ ''/'' @ e) @ ?rest"
    using Cons.prems(1) ne by (intro Cons.IH) auto
  finally show ?case by simp
qed

lemma join_elems_Cons: "join_elems (e # es) = e @ concat (map (\<lambda>e. CHR ''/'' # e) es)"
  by (induction es arbitrary: e) simp_all

lemma Clean_plain:
  assumes "\<forall>e \<in> set es. plain_elem e" and "es \<noteq> []"
  shows "Clean (join_elems es) = join_elems es"
    and "Clean (CHR ''/'' # join_elems es) = CHR ''/'' # join_elems es"
proof -
  from assms obtain e es' where es: "es = e # es'" by (cases es) auto
  let ?rest = "concat (map (\<lambda>e. CHR ''/'' # e) es')"
  have rest: "?rest = [] \<or> hd ?rest = CHR ''/''"
    by (cases es') simp_all
  have pe: "plain_elem e" and pes: "\<forall>e \<in> set es'. plain_elem e"
    using assms(1) es by simp_all
  then have ne: "e \<noteq> []" and h: "hd e \<noteq> CHR ''/''"
    by (cases e; auto simp: plain_elem_def)+
  have j: "join_elems es = e @ ?rest" by (simp add: es join_elems_Cons)
  have "Clean_loop False (e @ ?rest) [] 0 = Clean_loop False ?rest e 0"
    by (simp add: Clean_loop_plain_elem [OF pe rest])
  also have "\<dots> = e @ ?rest"
    using ne by (simp add: Clean_loop_plain_elems [OF pes])
  finally have u: "Clean_loop False (e @ ?rest) [] 0 = e @ ?rest" .
  have "Clean_loop True (e @ ?rest) ''/'' 1 = Clean_loop True ?rest (CHR ''/'' # e) 1"
    by (simp add: Clean_loop_plain_elem [OF pe rest])
  also have "\<dots> = (CHR ''/'' # e) @ ?rest"
    using ne by (intro Clean_loop_plain_elems [OF pes]) simp_all
  finally have r: "Clean_loop True (e @ ?rest) ''/'' 1 = CHR ''/'' # e @ ?rest" by simp
  show "Clean (join_elems es) = join_elems es"
    unfolding j using ne h u by (simp add: Clean_def)
  show "Clean (CHR ''/'' # join_elems es) = CHR ''/'' # join_elems es"
    unfolding j using r by (simp add: Clean_def)
qed

lemma join_elems_append:
  assumes "rs \<noteq> []" and "ps \<noteq> []"
  shows "join_elems (rs @ ps) = join_elems rs @ ''/'' @ join_elems ps"
proof -
  from assms obtain e rs' e' ps' where "rs = e # rs'" "ps = e' # ps'"
    by (cases rs; cases ps) auto
  then show ?thesis by (simp add: join_elems_Cons)
qed

lemma join_elems_nonempty:
  assumes "\<forall>e \<in> set es. plain_elem e" and "es \<noteq> []"
  shows "join_elems es \<noteq> []"
  using assms by (cases es) (auto simp: join_elems_Cons plain_elem_def)

lemma Clean_double_root: "Clean (CHR ''/'' # CHR ''/'' # xs) = Clean (CHR ''/'' # xs)"
  by (simp add: Clean_def)

lemma Join_plain:
  assumes "\<forall>e \<in> set rs \<union> set ps. plain_elem e"
  shows "Join [join_elems rs, join_elems ps] = join_elems (rs @ ps)"
    and "Join [CHR ''/'' # join_elems rs, join_elems ps] = CHR ''/'' # join_elems (rs @ ps)"
proof -
  have pr: "\<forall>e \<in> set rs. plain_elem e" and pp: "\<forall>e \<in> set ps. plain_elem e"
    and pa: "\<forall>e \<in> set (rs @ ps). plain_elem e"
    using assms by auto
  show "Join [join_elems rs, join_elems ps] = join_elems (rs @ ps)"
  proof (cases "rs = []")
    case True
    then show ?thesis
      using Clean_plain(1) [OF pp] join_elems_nonempty [OF pp]
      by (cases "ps = []") (simp_all add: Join_two)
  next
    case False
    note r = join_elems_nonempty [OF pr False]
    show ?thesis
    proof (cases "ps = []")
      case True
      then show ?thesis using r Clean_plain(1) [OF pr False] by (simp add: Join_empty_path)
    next
      case ne: False
      have "Join [join_elems rs, join_elems ps] = Clean (join_elems (rs @ ps))"
        using r by (simp add: Join_two join_elems_append [OF False ne])
      also have "\<dots> = join_elems (rs @ ps)"
        using False by (intro Clean_plain(1) [OF pa]) simp
      finally show ?thesis .
    qed
  qed
  show "Join [CHR ''/'' # join_elems rs, join_elems ps] = CHR ''/'' # join_elems (rs @ ps)"
  proof (cases "rs = []")
    case True
    show ?thesis
    proof (cases "ps = []")
      case True
      with \<open>rs = []\<close> show ?thesis
        by (simp add: Join_def Clean_def)
    next
      case False
      have "Join [''/'', join_elems ps] = Clean (CHR ''/'' # CHR ''/'' # join_elems ps)"
        by (simp add: Join_two)
      also have "\<dots> = CHR ''/'' # join_elems ps"
        unfolding Clean_double_root by (rule Clean_plain(2) [OF pp False])
      finally show ?thesis using True by simp
    qed
  next
    case False
    show ?thesis
    proof (cases "ps = []")
      case True
      then show ?thesis using Clean_plain(2) [OF pr False] by (simp add: Join_empty_path)
    next
      case ne: False
      have "Join [CHR ''/'' # join_elems rs, join_elems ps] = Clean (CHR ''/'' # join_elems (rs @ ps))"
        by (simp add: Join_two join_elems_append [OF False ne])
      also have "\<dots> = CHR ''/'' # join_elems (rs @ ps)"
        using False by (intro Clean_plain(2) [OF pa]) simp
      finally show ?thesis .
    qed
  qed
qed

text \<open>
  Claim C9, as stated, fails for a root prefix that is not in canonical form: the empty
  logical path under the root \<^verbatim>\<open>data/\<close> resolves to \<^verbatim>\<open>data\<close>, not to the root itself.
\<close>

theorem Join_empty_path_counterexample: "Join [''data/'', ''''] \<noteq> ''data/''"
  by (simp add: Join_def Clean_def)

text \<open>
  Claim C9, amended. The resolved key is a function of the root prefix and the logical
  path: the two joined by a slash (an empty root is left out) and cleaned, and the empty
  string when both are empty. It has no two adjacent slashes and does not end in a slash
  unless it is \<^verbatim>\<open>/\<close>. The empty logical path resolves to the cleaned root prefix (to the
  empty string for the empty root). For a root and a path that are made of plain elements
  with single slashes between them, the key is the root, a slash and the path; so the
  empty logical path resolves to such a root itself, also when the root has a leading
  slash.
\<close>

theorem Join_canonical:
  "Join [root, p] =
     (if root = [] \<and> p = [] then [] else Clean (if root = [] then p else root @ ''/'' @ p))
   \<and> no_dslash (Join [root, p])
   \<and> (Join [root, p] = [] \<or> Join [root, p] = ''/'' \<or> last (Join [root, p]) \<noteq> CHR ''/'')
   \<and> Join [root, []] = (if root = [] then [] else Clean root)
   \<and> ((\<forall>e \<in> set rs \<union> set ps. plain_elem e) \<longrightarrow>
        Join [join_elems rs, join_elems ps] = join_elems (rs @ ps)
        \<and> Join [CHR ''/'' # join_elems rs, join_elems ps] = CHR ''/'' # join_elems (rs @ ps))"
  using Join_two [of root p] Join_tidy [of "[root, p]"] Join_empty_path [of root]
    Join_plain [of rs ps]
  by blast

theorem Join_canonical_witness:
  "plain_elem ''data'' \<and> plain_elem ''v1'' \<and> plain_elem ''dir'' \<and> plain_elem ''a.txt''
   \<and> Join [''data/v1'', ''dir/a.txt''] = ''data/v1/dir/a.txt''
   \<and> Join [''/data/v1'', ''dir/a.txt''] = ''/data/v1/dir/a.txt''
   \<and> Join [''data/v1'', []] = ''data/v1''
   \<and> Join [''data//v1/'', []] = Clean ''data//v1/''
   \<and> Clean ''data//v1/'' = ''data/v1''
   \<and> no_dslash (Join [''data//v1/'', ''./dir//a.txt''])"
proof -
  have pl: "\<forall>e \<in> set [''data'', ''v1''] \<union> set [''dir'', ''a.txt'']. plain_elem e"
    and pl': "\<forall>e \<in> set [''data'', ''v1''] \<union> set []. plain_elem e"
    by (simp_all add: plain_elem_def)
  note a = Join_canonical [of "''data//v1/''" "''./dir//a.txt''" "[''data'', ''v1'']" "[''dir'', ''a.txt'']"]
  note b = Join_canonical [of "''data//v1/''" "[]" "[''data'', ''v1'']" "[]"]
  have 1: "plain_elem ''data'' \<and> plain_elem ''v1'' \<and> plain_elem ''dir'' \<and> plain_elem ''a.txt''"
    using pl by simp
  have 2: "Join [''data/v1'', ''dir/a.txt''] = ''data/v1/dir/a.txt''
           \<and> Join [''/data/v1'', ''dir/a.txt''] = ''/data/v1/dir/a.txt''"
    using a [THEN conjunct2, THEN conjunct2, THEN conjunct2, THEN conjunct2, THEN mp, OF pl]
    by simp
  have 3: "Join [''data/v1'', []] = ''data/v1''"
    using b [THEN conjunct2, THEN conjunct2, THEN conjunct2, THEN conjunct2, THEN mp, OF pl']
    by simp
  have 4: "Join [''data//v1/'', []] = Clean ''data//v1/''"
    using b [THEN conjunct2, THEN conjunct2, THEN conjunct2, THEN conjunct1] by simp
  have 5: "Clean ''data//v1/'' = ''data/v1''"
    by (simp add: Clean_def)
  have 6: "no_dslash (Join [''data//v1/'', ''./dir//a.txt''])"
    by (rule a [THEN conjunct2, THEN conjunct1])
  from 1 2 3 4 5 6 show ?thesis by blast
qed

end
